theory Spec2Isabelle
  imports Complex_Main "HOL-Library.AList" "HOL-Library.Multiset"
    "HOL-Library.Char_ord" "HOL-Library.List_Lexorder"
begin

section \<open>JavaScript values, errors and the world an operation runs in\<close>

text \<open>
  The storage layer of the extension is TypeScript running on a single-threaded event
  loop against \<^verbatim>\<open>chrome.storage.local\<close>. The embedding makes explicit what the
  code leaves to the runtime:
  \<^item> a thrown value or a rejected promise is the \<open>Inl\<close> of a sum, a resolved one the
    \<open>Inr\<close>;
  \<^item> \<^verbatim>\<open>Date.now()\<close> reads the field \<open>now\<close> of the world;
  \<^item> every \<^verbatim>\<open>console.warn\<close>/\<^verbatim>\<open>console.log\<close> line is appended to
    \<open>console\<close>, every delay handed to \<^verbatim>\<open>setTimeout\<close> to \<open>timers\<close> (and the
    clock moves on by that delay);
  \<^item> the outcome of each call of \<^verbatim>\<open>chrome.storage.local\<close>
    (\<^verbatim>\<open>chrome.runtime.lastError\<close> set or not) and each value of
    \<^verbatim>\<open>Math.random\<close> is read from a list the environment supplies; an exhausted
    list means: no further failure, an empty random suffix.
  Numbers are integers (time stamps in milliseconds); \<^verbatim>\<open>NaN\<close> and fractions are
  outside the model. Property lookup \<^verbatim>\<open>map[id]\<close> finds the object's own entry or,
  failing that, the member of that name of \<^verbatim>\<open>Object.prototype\<close>.
\<close>

datatype js_error =
    JsError (err_name: string) (err_message: string)
  | LastError (le_message: "string option")

text \<open>\<open>JsError n m\<close> is an \<^verbatim>\<open>Error\<close> object of class \<open>n\<close> with message \<open>m\<close>;
  \<open>LastError m\<close> is the plain object \<^verbatim>\<open>chrome.runtime.lastError\<close>.\<close>

fun message_of :: "js_error \<Rightarrow> string option" where
  "message_of (JsError n m) = Some m"
| "message_of (LastError m) = m"

fun String_of :: "js_error \<Rightarrow> string" where
  "String_of (JsError n m) = (if m = [] then n else n @ '': '' @ m)"
| "String_of (LastError m) = ''[object Object]''"

definition truthy_str :: "string option \<Rightarrow> bool" where
  "truthy_str s = (case s of None \<Rightarrow> False | Some t \<Rightarrow> t \<noteq> [])"

definition truthy_num :: "int option \<Rightarrow> bool" where
  "truthy_num n = (case n of None \<Rightarrow> False | Some k \<Rightarrow> k \<noteq> 0)"

text \<open>\<^verbatim>\<open>lastErr && lastErr.message ? lastErr.message : String(lastErr)\<close>\<close>

definition describe :: "js_error option \<Rightarrow> string" where
  "describe lastErr =
     (case lastErr of
        None \<Rightarrow> ''null''
      | Some e \<Rightarrow> (if truthy_str (message_of e) then the (message_of e) else String_of e))"

record ConcurrencyMetrics =
  totalOperations :: nat
  successfulOperations :: nat
  failedOperations :: nat
  averageLatency :: real
  queueDepth :: nat
  lastOperationTime :: int

definition zero_metrics :: ConcurrencyMetrics where
  "zero_metrics = \<lparr> totalOperations = 0, successfulOperations = 0, failedOperations = 0,
     averageLatency = 0, queueDepth = 0, lastOperationTime = 0 \<rparr>"

record world =
  now :: int
  console :: "string list"
  timers :: "int list"
  service_metrics :: ConcurrencyMetrics

text \<open>\<open>service_metrics\<close> is the private field \<^verbatim>\<open>metrics\<close> of the
  \<^verbatim>\<open>ConcurrencyService\<close>: the retry loop, which runs as a queued operation, writes it.\<close>

definition console_out :: "string \<Rightarrow> 'x world_scheme \<Rightarrow> 'x world_scheme" where
  "console_out line w = w\<lparr> console := console w @ [line] \<rparr>"

text \<open>\<^verbatim>\<open>await new Promise(res => setTimeout(res, ms))\<close>\<close>

definition delay :: "int \<Rightarrow> 'x world_scheme \<Rightarrow> 'x world_scheme" where
  "delay ms w = w\<lparr> now := now w + ms, timers := timers w @ [ms] \<rparr>"

subsection \<open>Numbers as text\<close>

definition digit_char :: "nat \<Rightarrow> char" where
  "digit_char d = (''0123456789abcdefghijklmnopqrstuvwxyz'' ! d)"

function radix :: "nat \<Rightarrow> nat \<Rightarrow> string" where
  "radix b n = (if b < 2 \<or> n < b then [digit_char n] else radix b (n div b) @ [digit_char (n mod b)])"
  by pat_completeness auto
termination
  by (relation "measure (\<lambda>(b, n). n)") auto

declare radix.simps [simp del]

text \<open>\<^verbatim>\<open>n.toString(b)\<close> for an integer \<open>n\<close>\<close>

definition toString :: "nat \<Rightarrow> int \<Rightarrow> string" where
  "toString b i = (if i < 0 then ''-'' @ radix b (nat (- i)) else radix b (nat i))"

section \<open>The record store (core/storage-service.ts)\<close>

subsection \<open>Records and backing values\<close>

text \<open>
  \<^verbatim>\<open>Prompt\<close> and \<^verbatim>\<open>PromptRecord\<close> (and \<^verbatim>\<open>Context\<close>,
  \<^verbatim>\<open>ContextRecord\<close>) share the fields \<^verbatim>\<open>id\<close>, \<^verbatim>\<open>name\<close> and the optional
  time stamps; an optional property is an \<open>option\<close>, \<open>None\<close> for \<^verbatim>\<open>undefined\<close>.
  The field \<^verbatim>\<open>id\<close> is \<open>ident\<close> here, \<^verbatim>\<open>text\<close> is \<open>ctext\<close>.
\<close>

record entity =
  ident :: string
  name :: string
  createdAt :: "int option"
  updatedAt :: "int option"

record prompt_record = entity +
  template :: string
  description :: "string option"

record context_record = entity +
  ctext :: string

text \<open>What \<^verbatim>\<open>chrome.storage.local.get\<close> can hand back under one key: any JSON
  value, or \<^verbatim>\<open>undefined\<close> when the key is absent. The entries of an object and the
  items of a legacy array are records of type \<open>'r\<close>; an object is the list of its
  entries in enumeration order.\<close>

datatype 'r jsval =
    JUndefined
  | JNull
  | JBool bool
  | JNum int
  | JStr string
  | JArray "'r list"
  | JObject "(string \<times> 'r) list"

fun typeof :: "'r jsval \<Rightarrow> string" where
  "typeof JUndefined = ''undefined''"
| "typeof JNull = ''object''"
| "typeof (JBool b) = ''boolean''"
| "typeof (JNum n) = ''number''"
| "typeof (JStr s) = ''string''"
| "typeof (JArray xs) = ''object''"
| "typeof (JObject m) = ''object''"

fun isArray :: "'r jsval \<Rightarrow> bool" where
  "isArray (JArray xs) = True"
| "isArray v = False"

fun truthy :: "'r jsval \<Rightarrow> bool" where
  "truthy JUndefined = False"
| "truthy JNull = False"
| "truthy (JBool b) = b"
| "truthy (JNum n) = (n \<noteq> 0)"
| "truthy (JStr s) = (s \<noteq> [])"
| "truthy (JArray xs) = True"
| "truthy (JObject m) = True"

record 'r chrome = world +
  stored :: "'r jsval"
  lastErrors :: "js_error option list"
  randoms :: "string list"

text \<open>\<open>stored\<close> is the value under the one key an operation works on
  (\<^verbatim>\<open>'prompts'\<close> or \<^verbatim>\<open>'contexts'\<close>): no operation of the service touches both keys,
  so each key space is a world of its own.\<close>

definition type_error :: "string \<Rightarrow> js_error" where
  "type_error m = JsError ''TypeError'' m"

text \<open>The messages of V8 for a property read on \<^verbatim>\<open>null\<close> or \<^verbatim>\<open>undefined\<close>.\<close>

definition cannot_read :: "string \<Rightarrow> string \<Rightarrow> js_error" where
  "cannot_read what k = type_error (''Cannot read properties of '' @ what @ '' (reading ''
     @ [CHR 0x27] @ k @ [CHR 0x27] @ '')'')"

text \<open>The names every object inherits from \<^verbatim>\<open>Object.prototype\<close>: methods, and the
  accessor \<^verbatim>\<open>__proto__\<close>.\<close>

definition Object_prototype :: "string list" where
  "Object_prototype = [''constructor'', ''__defineGetter__'', ''__defineSetter__'',
     ''hasOwnProperty'', ''__lookupGetter__'', ''__lookupSetter__'', ''isPrototypeOf'',
     ''propertyIsEnumerable'', ''toString'', ''valueOf'', ''__proto__'', ''toLocaleString'']"

text \<open>What \<^verbatim>\<open>map[k]\<close> evaluates to: the record stored under \<open>k\<close>, a member
  inherited from \<^verbatim>\<open>Object.prototype\<close> when the object has no entry of that name, or
  \<^verbatim>\<open>undefined\<close>. An inherited member is a function or an object: it is truthy, it has
  none of the fields of a record, and spreading it adds no property. (The members that
  arrays and strings have of their own are not modelled: the last equation of
  \<open>js_index\<close> is never reached, a read yields an object or \<^verbatim>\<open>null\<close>.)\<close>

datatype 'r member = Own 'r | Inherited | Missing

definition member_of :: "(string \<times> 'r) list \<Rightarrow> string \<Rightarrow> 'r member" where
  "member_of m k =
     (case map_of m k of
        Some r \<Rightarrow> Own r
      | None \<Rightarrow> if k \<in> set Object_prototype then Inherited else Missing)"

fun js_index :: "'r jsval \<Rightarrow> string \<Rightarrow> js_error + 'r member" where
  "js_index (JObject m) k = Inr (member_of m k)"
| "js_index JNull k = Inl (cannot_read ''null'' k)"
| "js_index JUndefined k = Inl (cannot_read ''undefined'' k)"
| "js_index v k = Inr (if k \<in> set Object_prototype then Inherited else Missing)"

text \<open>\<^verbatim>\<open>!!map[k]\<close>, and the record that \<^verbatim>\<open>prev?.createdAt\<close> and \<^verbatim>\<open>...prev\<close>
  see in \<^verbatim>\<open>prev = map[k]\<close>\<close>

fun truthy_member :: "'r member \<Rightarrow> bool" where
  "truthy_member (Own r) = True"
| "truthy_member Inherited = True"
| "truthy_member Missing = False"

fun own_record :: "'r member \<Rightarrow> 'r option" where
  "own_record (Own r) = Some r"
| "own_record Inherited = None"
| "own_record Missing = None"

text \<open>\<^verbatim>\<open>map.hasOwnProperty(k)\<close>: the method is looked up on the map like any other
  property, so an entry stored under the name \<^verbatim>\<open>hasOwnProperty\<close> is called instead
  of it, and is no function.\<close>

fun hasOwnProperty :: "'r jsval \<Rightarrow> string \<Rightarrow> js_error + bool" where
  "hasOwnProperty (JObject m) k =
     (if map_of m ''hasOwnProperty'' \<noteq> None then Inl (type_error ''map.hasOwnProperty is not a function'')
      else Inr (k \<in> set (map fst m)))"
| "hasOwnProperty JNull k = Inl (cannot_read ''null'' ''hasOwnProperty'')"
| "hasOwnProperty JUndefined k = Inl (cannot_read ''undefined'' ''hasOwnProperty'')"
| "hasOwnProperty v k = Inr False"

text \<open>\<^verbatim>\<open>Object.values(map)\<close>\<close>

fun Object_values :: "'r jsval \<Rightarrow> js_error + 'r list" where
  "Object_values (JObject m) = Inr (map snd m)"
| "Object_values (JArray xs) = Inr xs"
| "Object_values JNull = Inl (type_error ''Cannot convert undefined or null to object'')"
| "Object_values JUndefined = Inl (type_error ''Cannot convert undefined or null to object'')"
| "Object_values v = Inr []"

text \<open>The entries of an object. The assignment \<^verbatim>\<open>map[k] = r\<close> of a record is
  \<^const>\<open>AList.update\<close> (in place for an existing key, appended for a new one),
  except under the name \<^verbatim>\<open>__proto__\<close> when the object has no entry of that name:
  then the inherited setter makes \<open>r\<close> the prototype of the object and no entry is
  added. \<^verbatim>\<open>delete map[k]\<close> is \<^const>\<open>AList.delete\<close>, and the spread
  \<^verbatim>\<open>{ ...current, ...map }\<close> defines the entries of \<open>map\<close> on a copy of
  \<open>current\<close> from left to right.\<close>

definition assign :: "(string \<times> 'r) list \<Rightarrow> string \<Rightarrow> 'r \<Rightarrow> (string \<times> 'r) list" where
  "assign m k r = (if k = ''__proto__'' \<and> map_of m k = None then m else AList.update k r m)"

definition spread :: "(string \<times> 'r) list \<Rightarrow> (string \<times> 'r) list \<Rightarrow> (string \<times> 'r) list" where
  "spread current m = foldl (\<lambda>acc (k, v). AList.update k v acc) current m"

subsection \<open>The calls of chrome.storage.local\<close>

definition next_error :: "'r chrome \<Rightarrow> js_error option \<times> 'r chrome" where
  "next_error w =
     (case lastErrors w of
        [] \<Rightarrow> (None, w)
      | e # es \<Rightarrow> (e, w\<lparr> lastErrors := es \<rparr>))"

text \<open>\<^verbatim>\<open>chrome.storage.local.get([KEY], cb)\<close>: the error the callback sees in
  \<^verbatim>\<open>chrome.runtime.lastError\<close>, or the value under the key.\<close>

definition storage_get :: "'r chrome \<Rightarrow> (js_error + 'r jsval) \<times> 'r chrome" where
  "storage_get w =
     (case next_error w of
        (Some err, w') \<Rightarrow> (Inl err, w')
      | (None, w') \<Rightarrow> (Inr (stored w'), w'))"

text \<open>\<^verbatim>\<open>chrome.storage.local.set({ [KEY]: v }, cb)\<close>; a failed call stores nothing.\<close>

definition storage_set :: "'r jsval \<Rightarrow> 'r chrome \<Rightarrow> (js_error + unit) \<times> 'r chrome" where
  "storage_set v w =
     (case next_error w of
        (Some err, w') \<Rightarrow> (Inl err, w')
      | (None, w') \<Rightarrow> (Inr (), w'\<lparr> stored := v \<rparr>))"

text \<open>\<^verbatim>\<open>makeId = () => Date.now().toString(36) + '-' + Math.random().toString(36).slice(2, 8)\<close>\<close>

definition makeId :: "'r chrome \<Rightarrow> string \<times> 'r chrome" where
  "makeId w =
     (case randoms w of
        [] \<Rightarrow> (toString 36 (now w) @ ''-'', w)
      | r # rs \<Rightarrow> (toString 36 (now w) @ ''-'' @ r, w\<lparr> randoms := rs \<rparr>))"

subsection \<open>writePromptsMap / writeContextsMap\<close>

text \<open>The two functions of the source differ in the key only.\<close>

definition writeMap :: "(string \<times> 'r) list \<Rightarrow> bool \<Rightarrow> 'r chrome \<Rightarrow> (js_error + unit) \<times> 'r chrome" where
  "writeMap m replace w =
     (if replace then storage_set (JObject m) w
      else
        (case storage_get w of
           (Inl err, w1) \<Rightarrow> (Inl err, w1)
         | (Inr val, w1) \<Rightarrow>
             (let current = (if truthy val \<and> typeof val = ''object'' \<and> \<not> isArray val
                             then (case val of JObject c \<Rightarrow> c | _ \<Rightarrow> []) else []);
                  merged = spread current m
              in storage_set (JObject merged) w1)))"

definition writePromptsMap ::
  "(string \<times> prompt_record) list \<Rightarrow> bool \<Rightarrow> prompt_record chrome \<Rightarrow> (js_error + unit) \<times> prompt_record chrome" where
  "writePromptsMap = writeMap"

definition writeContextsMap ::
  "(string \<times> context_record) list \<Rightarrow> bool \<Rightarrow> context_record chrome \<Rightarrow> (js_error + unit) \<times> context_record chrome" where
  "writeContextsMap = writeMap"

subsection \<open>readPromptsMap / readContextsMap\<close>

text \<open>The migration loop over a legacy array. Each item becomes the entry
  \<^verbatim>\<open>{ id, name, template, description, createdAt, updatedAt }\<close> (for a context:
  \<^verbatim>\<open>{ id, name, text, createdAt, updatedAt }\<close>): the payload fields are copied, the
  other three are set. (An item whose id is \<^verbatim>\<open>__proto__\<close> adds no entry; the
  prototype it gives the object in memory is not kept by the model, and the stored map
  does not have it.)\<close>

fun migrate :: "('x entity_scheme) list \<Rightarrow> (string \<times> 'x entity_scheme) list
    \<Rightarrow> ('x entity_scheme) chrome \<Rightarrow> (string \<times> 'x entity_scheme) list \<times> ('x entity_scheme) chrome" where
  "migrate [] m w = (m, w)"
| "migrate (item # arr) m w =
     (let (i, w1) = (if ident item \<noteq> [] then (ident item, w) else makeId w);
          c = (if truthy_num (createdAt item) then the (createdAt item) else now w1);
          u = (if truthy_num (updatedAt item) then the (updatedAt item) else c)
      in migrate arr (assign m i (item\<lparr> ident := i, createdAt := Some c, updatedAt := Some u \<rparr>)) w1)"

definition readMap :: "string \<Rightarrow> ('x entity_scheme) chrome
    \<Rightarrow> (js_error + ('x entity_scheme) jsval) \<times> ('x entity_scheme) chrome" where
  "readMap warning w =
     (case storage_get w of
        (Inl err, w1) \<Rightarrow> (Inl err, w1)
      | (Inr val, w1) \<Rightarrow>
          (if val = JUndefined then (Inr (JObject []), w1)
           else if typeof val = ''object'' \<and> \<not> isArray val then (Inr val, w1)
           else if isArray val then
             (let (m, w2) = migrate (case val of JArray arr \<Rightarrow> arr | _ \<Rightarrow> []) [] w1
              in (case writeMap m False w2 of
                    (Inl err, w3) \<Rightarrow> (Inl err, w3)
                  | (Inr u, w3) \<Rightarrow> (Inr (JObject m), w3)))
           else (Inr (JObject []), console_out warning w1)))"

definition readPromptsMap :: "prompt_record chrome \<Rightarrow> (js_error + prompt_record jsval) \<times> prompt_record chrome" where
  "readPromptsMap = readMap ''ChromeStorageService: unexpected prompts value, returning empty map.''"

definition readContextsMap :: "context_record chrome \<Rightarrow> (js_error + context_record jsval) \<times> context_record chrome" where
  "readContextsMap = readMap ''ChromeStorageService: unexpected contexts value, returning empty map.''"

subsection \<open>getPrompts / getContexts\<close>

text \<open>\<^verbatim>\<open>Array.prototype.sort\<close> is stable; for a consistent comparator its result is
  the one stable sorted arrangement, which insertion from the right computes.\<close>

fun insert_by :: "('a \<Rightarrow> 'a \<Rightarrow> int) \<Rightarrow> 'a \<Rightarrow> 'a list \<Rightarrow> 'a list" where
  "insert_by cmp x [] = [x]"
| "insert_by cmp x (y # ys) = (if cmp x y \<le> 0 then x # y # ys else y # insert_by cmp x ys)"

definition Array_sort :: "('a \<Rightarrow> 'a \<Rightarrow> int) \<Rightarrow> 'a list \<Rightarrow> 'a list" where
  "Array_sort cmp xs = foldr (insert_by cmp) xs []"

text \<open>\<^verbatim>\<open>map[a.id]?.createdAt ?? 0\<close>. The sort runs after \<^verbatim>\<open>Object.values(map)\<close>
  has succeeded, so \<open>map\<close> is an object there.\<close>

definition created_or_zero :: "('x entity_scheme) jsval \<Rightarrow> 'x entity_scheme \<Rightarrow> int" where
  "created_or_zero m a =
     (case js_index m (ident a) of
        Inr (Own r) \<Rightarrow> (case createdAt r of Some c \<Rightarrow> c | None \<Rightarrow> 0)
      | _ \<Rightarrow> 0)"

text \<open>The comparator of the source; \<open>localeCompare\<close> is the built-in
  \<^verbatim>\<open>String.prototype.localeCompare\<close>, a parameter of the model.\<close>

definition by_createdAt :: "(string \<Rightarrow> string \<Rightarrow> int) \<Rightarrow> ('x entity_scheme) jsval
    \<Rightarrow> 'x entity_scheme \<Rightarrow> 'x entity_scheme \<Rightarrow> int" where
  "by_createdAt localeCompare m a b =
     (let ra = created_or_zero m a; rb = created_or_zero m b
      in if ra \<noteq> rb then ra - rb else localeCompare (ident a) (ident b))"

definition getList :: "(string \<Rightarrow> string \<Rightarrow> int)
    \<Rightarrow> (('x entity_scheme) chrome \<Rightarrow> (js_error + ('x entity_scheme) jsval) \<times> ('x entity_scheme) chrome)
    \<Rightarrow> ('x entity_scheme \<Rightarrow> 'x entity_scheme)
    \<Rightarrow> ('x entity_scheme) chrome \<Rightarrow> (js_error + ('x entity_scheme) list) \<times> ('x entity_scheme) chrome" where
  "getList localeCompare read project w =
     (case read w of
        (Inl err, w1) \<Rightarrow> (Inl err, w1)
      | (Inr m, w1) \<Rightarrow>
          (case Object_values m of
             Inl err \<Rightarrow> (Inl err, w1)
           | Inr vals \<Rightarrow> (Inr (Array_sort (by_createdAt localeCompare m) (map project vals)), w1)))"

text \<open>\<^verbatim>\<open>r => ({ id: r.id, name: r.name, template: r.template, description: r.description || '' })\<close>\<close>

definition project_prompt :: "prompt_record \<Rightarrow> prompt_record" where
  "project_prompt r = \<lparr> ident = ident r, name = name r, createdAt = None, updatedAt = None,
     template = template r,
     description = Some (if truthy_str (description r) then the (description r) else []) \<rparr>"

text \<open>\<^verbatim>\<open>r => ({ id: r.id, name: r.name, text: r.text })\<close>\<close>

definition project_context :: "context_record \<Rightarrow> context_record" where
  "project_context r = \<lparr> ident = ident r, name = name r, createdAt = None, updatedAt = None,
     ctext = ctext r \<rparr>"

definition getPrompts :: "(string \<Rightarrow> string \<Rightarrow> int) \<Rightarrow> prompt_record chrome
    \<Rightarrow> (js_error + prompt_record list) \<times> prompt_record chrome" where
  "getPrompts localeCompare = getList localeCompare readPromptsMap project_prompt"

definition getContexts :: "(string \<Rightarrow> string \<Rightarrow> int) \<Rightarrow> context_record chrome
    \<Rightarrow> (js_error + context_record list) \<times> context_record chrome" where
  "getContexts localeCompare = getList localeCompare readContextsMap project_context"

text \<open>A comparator on strings is consistent when it is total and transitive, which is
  what \<^verbatim>\<open>Array.prototype.sort\<close> asks of it; \<open>code_unit_compare\<close> is one (the order
  of the code units). A map is keyed by id when each entry's key is the id of its
  record; \<open>stamp\<close> is the \<^verbatim>\<open>createdAt\<close> of a record, 0 when it has none.\<close>

definition consistent_compare :: "(string \<Rightarrow> string \<Rightarrow> int) \<Rightarrow> bool" where
  "consistent_compare lc =
     ((\<forall>a b. lc a b \<le> 0 \<or> lc b a \<le> 0) \<and> (\<forall>a b c. lc a b \<le> 0 \<and> lc b c \<le> 0 \<longrightarrow> lc a c \<le> 0))"

definition code_unit_compare :: "string \<Rightarrow> string \<Rightarrow> int" where
  "code_unit_compare a b = (if a = b then 0 else if a < b then - 1 else 1)"

definition keyed_by_id :: "(string \<times> 'x entity_scheme) list \<Rightarrow> bool" where
  "keyed_by_id m = (distinct (map fst m) \<and> (\<forall>(k, r) \<in> set m. ident r = k))"

definition stamp :: "'x entity_scheme \<Rightarrow> int" where
  "stamp r = (case createdAt r of Some c \<Rightarrow> c | None \<Rightarrow> 0)"

section \<open>Asynchronous operations\<close>

text \<open>
  An \<^verbatim>\<open>async\<close> function runs until its first \<^verbatim>\<open>await\<close> when it is called and
  returns a promise; each later turn of the event loop lets it run to its next
  \<^verbatim>\<open>await\<close>, until the promise settles. A promise in progress is a \<open>pending\<close>:
  \<open>Settled r\<close> is resolved (\<open>Inr\<close>) or rejected (\<open>Inl\<close>); \<open>Await e k\<close> is
  suspended, and when it is resumed in a world \<open>w\<close> it leaves the world \<open>e w\<close> and is
  then \<open>k w\<close>. Between two turns of one operation other operations may run: the
  world is shared. Every operation of the model settles after finitely many turns;
  an operation that hangs is outside it.
\<close>

datatype ('w, 'a) pending =
    Settled "js_error + 'a"
  | Await "'w \<Rightarrow> 'w" "'w \<Rightarrow> ('w, 'a) pending"

type_synonym ('w, 'a) async = "'w \<Rightarrow> 'w \<times> ('w, 'a) pending"

text \<open>A suspended call of an \<^verbatim>\<open>async\<close> function: resumed, it runs the function.\<close>

definition suspended :: "('w, 'a) async \<Rightarrow> ('w, 'a) pending" where
  "suspended f = Await (\<lambda>w. fst (f w)) (\<lambda>w. snd (f w))"

text \<open>\<^verbatim>\<open>try { r = await p; ... } catch (e) { ... }\<close>: the continuation \<open>k\<close> takes
  the outcome of \<open>p\<close> and runs in a turn of its own.\<close>

primrec then_p :: "('w, 'a) pending \<Rightarrow> (js_error + 'a \<Rightarrow> ('w, 'b) async) \<Rightarrow> ('w, 'b) pending" where
  "then_p (Settled r) k = suspended (k r)"
| "then_p (Await e f) k = Await e (\<lambda>w. then_p (f w) k)"

text \<open>Running a promise to its settlement while nothing else takes a turn, and the
  number of turns that takes.\<close>

primrec finish :: "('w, 'a) pending \<Rightarrow> 'w \<Rightarrow> (js_error + 'a) \<times> 'w" where
  "finish (Settled r) = (\<lambda>w. (r, w))"
| "finish (Await e k) = (\<lambda>w. finish (k w) (e w))"

primrec turns :: "('w, 'a) pending \<Rightarrow> 'w \<Rightarrow> nat" where
  "turns (Settled r) = (\<lambda>w. 0)"
| "turns (Await e k) = (\<lambda>w. Suc (turns (k w) (e w)))"

text \<open>\<^verbatim>\<open>await f()\<close> with nothing else taking a turn\<close>

definition run_async :: "('w, 'a) async \<Rightarrow> 'w \<Rightarrow> (js_error + 'a) \<times> 'w" where
  "run_async f w = (case f w of (w1, p) \<Rightarrow> finish p w1)"

text \<open>An operation given by its effect as a whole (the storage operations below): the
  call returns a promise, the effect takes place while it is suspended.\<close>

definition promised :: "('w \<Rightarrow> (js_error + 'a) \<times> 'w) \<Rightarrow> ('w, 'a) async" where
  "promised body = (\<lambda>w. (w, Await (\<lambda>v. snd (body v)) (\<lambda>v. Settled (fst (body v)))))"

section \<open>The concurrency service (core/concurrency-service.ts)\<close>

record ConcurrencyConfig =
  maxRetries :: int
  baseDelayMs :: int
  maxDelayMs :: int
  enableMetrics :: bool
  logOperations :: bool

definition DEFAULT_CONCURRENCY_CONFIG :: ConcurrencyConfig where
  "DEFAULT_CONCURRENCY_CONFIG = \<lparr> maxRetries = 3, baseDelayMs = 10, maxDelayMs = 1000,
     enableMetrics = True, logOperations = False \<rparr>"

text \<open>\<^verbatim>\<open>Math.min(baseDelay * Math.pow(2, attempt - 1), maxDelay)\<close>; every call of the
  source has \<open>attempt \<ge> 1\<close>.\<close>

definition calculateBackoffDelay :: "int \<Rightarrow> int \<Rightarrow> int \<Rightarrow> int" where
  "calculateBackoffDelay attempt baseDelay maxDelay =
     (let d = baseDelay * 2 ^ nat (attempt - 1) in min d maxDelay)"

text \<open>The body that \<^verbatim>\<open>recordOperation\<close> has in both classes: \<open>t\<close> is
  \<^verbatim>\<open>Date.now()\<close>.\<close>

definition record_metrics :: "bool \<Rightarrow> int \<Rightarrow> int \<Rightarrow> ConcurrencyMetrics \<Rightarrow> ConcurrencyMetrics" where
  "record_metrics success latency t m =
     (let m1 = m\<lparr> totalOperations := totalOperations m + 1 \<rparr>;
          m2 = (if success then m1\<lparr> successfulOperations := successfulOperations m1 + 1 \<rparr>
                else m1\<lparr> failedOperations := failedOperations m1 + 1 \<rparr>);
          m3 = (if totalOperations m2 = 1 then m2\<lparr> averageLatency := real_of_int latency \<rparr>
                else m2\<lparr> averageLatency :=
                       (averageLatency m2 * real (totalOperations m2 - 1) + real_of_int latency)
                         / real (totalOperations m2) \<rparr>)
      in m3\<lparr> lastOperationTime := t \<rparr>)"

subsection \<open>WriteQueueService\<close>

text \<open>
  The fields \<open>queue\<close>, \<open>processing\<close> and \<open>metrics\<close> are those of the class. What
  the event loop holds for it is explicit:
  \<^item> \<open>loops\<close>: the calls of \<^verbatim>\<open>processQueue\<close> that are suspended at
    \<^verbatim>\<open>await operation.operation()\<close>, each with the operation it waits for and that
    operation's promise (\<open>Awaiting\<close>), or about to take the next turn of the
    \<^verbatim>\<open>while\<close> loop after the wrapper has settled (\<open>Resuming\<close>);
  \<^item> \<open>promises\<close>: the promises that \<^verbatim>\<open>enqueue\<close> returned and that have settled,
    by operation id, in the order in which they settled;
  \<^item> \<open>ran\<close>: the ids of the operations in the order in which they took their turns.
  The source draws an operation's id from the clock and \<^verbatim>\<open>Math.random\<close> and never
  reads it; the model numbers the operations, \<open>issued\<close> counting them, so that an id
  names the promise \<^verbatim>\<open>enqueue\<close> returned. The wrapper that \<^verbatim>\<open>enqueue\<close> puts
  around an operation is the second case of \<open>resume\<close>.
\<close>

record ('w, 'a) QueuedOperation =
  op_id :: nat
  operation :: "('w, 'a) async"
  timestamp :: int
  retryCount :: nat

datatype ('w, 'a) loop_state =
    Awaiting "('w, 'a) QueuedOperation" "('w, 'a) pending"
  | Resuming

record ('w, 'a) WriteQueueService =
  queue :: "('w, 'a) QueuedOperation list"
  processing :: bool
  metrics :: ConcurrencyMetrics
  loops :: "('w, 'a) loop_state list"
  promises :: "(nat \<times> (js_error + 'a)) list"
  issued :: nat
  ran :: "nat list"

definition new_queue :: "('w, 'a) WriteQueueService" where
  "new_queue = \<lparr> queue = [], processing = False, metrics = zero_metrics, loops = [],
     promises = [], issued = 0, ran = [] \<rparr>"

definition updateQueueDepth :: "('w, 'a) WriteQueueService \<Rightarrow> ('w, 'a) WriteQueueService" where
  "updateQueueDepth q = q\<lparr> metrics := (metrics q)\<lparr> queueDepth := length (queue q) \<rparr> \<rparr>"

definition getQueueDepth :: "('w, 'a) WriteQueueService \<Rightarrow> nat" where
  "getQueueDepth q = length (queue q)"

definition getQueueMetrics :: "('w, 'a) WriteQueueService \<Rightarrow> ConcurrencyMetrics" where
  "getQueueMetrics q = metrics q"

text \<open>One turn of the \<^verbatim>\<open>while\<close> loop of \<^verbatim>\<open>processQueue\<close>, up to its
  \<^verbatim>\<open>await\<close>: the head of the queue is shifted off and called. With an empty queue
  the loop ends and \<^verbatim>\<open>finally\<close> clears the flag.\<close>

definition next_turn :: "'x world_scheme \<times> ('x world_scheme, 'a) WriteQueueService
    \<Rightarrow> ('x world_scheme \<times> ('x world_scheme, 'a) WriteQueueService) \<times> ('x world_scheme, 'a) loop_state option" where
  "next_turn s =
     (case s of (w, q) \<Rightarrow>
        (case queue q of
           [] \<Rightarrow> ((w, q\<lparr> processing := False \<rparr>), None)
         | opn # rest \<Rightarrow>
             (let q1 = updateQueueDepth (q\<lparr> queue := rest \<rparr>);
                  (w1, p) = operation opn w
              in ((w1, q1\<lparr> ran := ran q1 @ [op_id opn] \<rparr>), Some (Awaiting opn p)))))"

definition processQueue :: "'x world_scheme \<times> ('x world_scheme, 'a) WriteQueueService
    \<Rightarrow> 'x world_scheme \<times> ('x world_scheme, 'a) WriteQueueService" where
  "processQueue s =
     (case s of (w, q) \<Rightarrow>
        if processing q \<or> length (queue q) = 0 then (w, q)
        else
          (case next_turn (w, q\<lparr> processing := True \<rparr>) of
             ((w1, q1), None) \<Rightarrow> (w1, q1)
           | ((w1, q1), Some l) \<Rightarrow> (w1, q1\<lparr> loops := loops q1 @ [l] \<rparr>)))"

definition enqueue :: "('x world_scheme, 'a) async
    \<Rightarrow> 'x world_scheme \<times> ('x world_scheme, 'a) WriteQueueService
    \<Rightarrow> 'x world_scheme \<times> ('x world_scheme, 'a) WriteQueueService" where
  "enqueue opn s =
     (case s of (w, q) \<Rightarrow>
        (let operationId = issued q;
             startTime = now w;
             queuedOp = \<lparr> op_id = operationId, operation = opn, timestamp = startTime, retryCount = 0 \<rparr>;
             q1 = updateQueueDepth (q\<lparr> queue := queue q @ [queuedOp], issued := issued q + 1 \<rparr>)
         in processQueue (w, q1)))"

text \<open>The suspended call number \<open>i\<close> of \<^verbatim>\<open>processQueue\<close> takes a turn: its operation
  runs to its next \<^verbatim>\<open>await\<close>; or the operation has settled and the wrapper records
  it and settles the promise of \<^verbatim>\<open>enqueue\<close> (whether it resolved or rejected); or
  the wrapper is done and the \<^verbatim>\<open>while\<close> loop goes on.\<close>

definition resume :: "nat \<Rightarrow> 'x world_scheme \<times> ('x world_scheme, 'a) WriteQueueService
    \<Rightarrow> 'x world_scheme \<times> ('x world_scheme, 'a) WriteQueueService" where
  "resume i s =
     (case s of (w, q) \<Rightarrow>
        if i < length (loops q) then
          (case loops q ! i of
             Awaiting opn (Await e k) \<Rightarrow>
               (e w, q\<lparr> loops := (loops q)[i := Awaiting opn (k w)], ran := ran q @ [op_id opn] \<rparr>)
           | Awaiting opn (Settled r) \<Rightarrow>
               (w, q\<lparr> metrics := record_metrics (\<not> isl r) (now w - timestamp opn) (now w) (metrics q),
                       promises := promises q @ [(op_id opn, r)],
                       loops := (loops q)[i := Resuming] \<rparr>)
           | Resuming \<Rightarrow>
               (case next_turn (w, q) of
                  ((w1, q1), None) \<Rightarrow> (w1, q1\<lparr> loops := take i (loops q1) @ drop (Suc i) (loops q1) \<rparr>)
                | ((w1, q1), Some l) \<Rightarrow> (w1, q1\<lparr> loops := (loops q1)[i := l] \<rparr>)))
        else (w, q))"

text \<open>\<^verbatim>\<open>clear()\<close> and \<^verbatim>\<open>resetMetrics()\<close> of the queue\<close>

definition clear :: "('w, 'a) WriteQueueService \<Rightarrow> ('w, 'a) WriteQueueService" where
  "clear q = updateQueueDepth (q\<lparr> queue := [] \<rparr>)"

definition resetQueueMetrics :: "('w, 'a) WriteQueueService \<Rightarrow> ('w, 'a) WriteQueueService" where
  "resetQueueMetrics q = q\<lparr> metrics := zero_metrics\<lparr> queueDepth := length (queue q) \<rparr> \<rparr>"

text \<open>What can happen to a queue: a caller calls \<^verbatim>\<open>enqueue\<close>, or the event loop
  resumes a suspended call of \<^verbatim>\<open>processQueue\<close>. A run is a list of such events.\<close>

datatype ('w, 'a) event = Enqueue "('w, 'a) async" | Resume nat

fun fire :: "('x world_scheme, 'a) event \<Rightarrow> 'x world_scheme \<times> ('x world_scheme, 'a) WriteQueueService
    \<Rightarrow> 'x world_scheme \<times> ('x world_scheme, 'a) WriteQueueService" where
  "fire (Enqueue opn) s = enqueue opn s"
| "fire (Resume i) s = resume i s"

definition exec :: "('x world_scheme, 'a) event list \<Rightarrow> 'x world_scheme \<times> ('x world_scheme, 'a) WriteQueueService
    \<Rightarrow> 'x world_scheme \<times> ('x world_scheme, 'a) WriteQueueService" where
  "exec evs s = foldl (\<lambda>t ev. fire ev t) s evs"

text \<open>The event loop left to itself: the first suspended call of \<^verbatim>\<open>processQueue\<close> is
  resumed until none is left. A waiting operation is run to its settlement in one go
  (\<^const>\<open>finish\<close>), which is what \<^const>\<open>turns\<close> many turns of \<open>resume 0\<close> do.\<close>

fun loop_weight :: "('w, 'a) loop_state \<Rightarrow> nat" where
  "loop_weight (Awaiting opn p) = 2"
| "loop_weight Resuming = 1"

definition backlog :: "('w, 'a) WriteQueueService \<Rightarrow> nat" where
  "backlog q = sum_list (map loop_weight (loops q)) + 3 * length (queue q)"

function drain :: "'x world_scheme \<times> ('x world_scheme, 'a) WriteQueueService
    \<Rightarrow> 'x world_scheme \<times> ('x world_scheme, 'a) WriteQueueService" where
  "drain (w, q) =
     (case loops q of
        [] \<Rightarrow> (w, q)
      | Awaiting opn p # ls \<Rightarrow>
          (case finish p w of
             (r, w1) \<Rightarrow>
               drain (resume 0 (w1, q\<lparr> loops := Awaiting opn (Settled r) # ls,
                                       ran := ran q @ replicate (turns p w) (op_id opn) \<rparr>)))
      | Resuming # ls \<Rightarrow> drain (resume 0 (w, q)))"
  by pat_completeness auto
termination
proof (relation "measure (\<lambda>s. backlog (snd s))", goal_cases)
  case 1
  show ?case by simp
next
  case (2 w q l ls opn p r w1)
  then show ?case by (simp add: resume_def backlog_def)
next
  case (3 w q l ls)
  then show ?case
    by (cases "queue q")
       (auto simp: resume_def next_turn_def backlog_def updateQueueDepth_def Let_def split: prod.splits)
qed

declare drain.simps [simp del]

text \<open>The operations whose own code is running or suspended: those a call of
  \<^verbatim>\<open>processQueue\<close> waits for.\<close>

fun executing_of :: "('w, 'a) loop_state \<Rightarrow> nat list" where
  "executing_of (Awaiting opn p) = [op_id opn]"
| "executing_of Resuming = []"

definition executing :: "('w, 'a) WriteQueueService \<Rightarrow> nat list" where
  "executing q = concat (map executing_of (loops q))"

text \<open>The invariant of the queue: at most one call of \<^verbatim>\<open>processQueue\<close> is alive, and
  exactly while the flag is set; nothing waits while none is alive; the settled, the
  executing and the waiting operations are, in this order, the operations in the order
  of their enqueueing; and the operations took their turns in that order.\<close>

definition queue_inv :: "('w, 'a) WriteQueueService \<Rightarrow> bool" where
  "queue_inv q =
     (length (loops q) \<le> 1
      \<and> (processing q \<longleftrightarrow> loops q \<noteq> [])
      \<and> (loops q = [] \<longrightarrow> queue q = [])
      \<and> map fst (promises q) @ executing q @ map op_id (queue q) = [0..<issued q]
      \<and> sorted (ran q)
      \<and> (\<forall>x \<in> set (ran q). x < length (promises q) + length (executing q)))"

text \<open>For stating what a run of the queue amounts to: the operations that the calls of
  \<^verbatim>\<open>enqueue\<close> in a run handed over, in the order of the calls, and what a list of
  operations does when each is called after the one before it has settled, and runs to
  its settlement with nothing else taking a turn: the outcomes, and the world they leave.\<close>

fun enqueued :: "('w, 'a) event list \<Rightarrow> ('w, 'a) async list" where
  "enqueued [] = []"
| "enqueued (Enqueue opn # evs) = opn # enqueued evs"
| "enqueued (Resume i # evs) = enqueued evs"

fun in_turn :: "('w, 'a) async list \<Rightarrow> 'w \<Rightarrow> (js_error + 'a) list \<times> 'w" where
  "in_turn [] w = ([], w)"
| "in_turn (opn # ops) w =
     (case run_async opn w of
        (r, w1) \<Rightarrow> (case in_turn ops w1 of (rs, w2) \<Rightarrow> (r # rs, w2)))"

text \<open>What lies ahead of a state of the queue when the operations \<open>later\<close> are still to
  be handed over: the operation in flight runs to its settlement, then the waiting
  ones and those of \<open>later\<close> take their turn. With the outcomes of the promises
  settled so far in front, this is the \<open>outcome\<close> of the run.\<close>

definition ahead :: "'x world_scheme \<times> ('x world_scheme, 'a) WriteQueueService
    \<Rightarrow> ('x world_scheme, 'a) async list \<Rightarrow> (js_error + 'a) list \<times> 'x world_scheme" where
  "ahead s later =
     (case s of (w, q) \<Rightarrow>
        (case loops q of
           [] \<Rightarrow> in_turn (map operation (queue q) @ later) w
         | Awaiting e p # ls \<Rightarrow>
             (case finish p w of
                (r, w1) \<Rightarrow>
                  (case in_turn (map operation (queue q) @ later) w1 of (rs, w2) \<Rightarrow> (r # rs, w2)))
         | Resuming # ls \<Rightarrow> in_turn (map operation (queue q) @ later) w))"

definition outcome :: "'x world_scheme \<times> ('x world_scheme, 'a) WriteQueueService
    \<Rightarrow> ('x world_scheme, 'a) async list \<Rightarrow> (js_error + 'a) list \<times> 'x world_scheme" where
  "outcome s later = (map snd (promises (snd s)) @ fst (ahead s later), snd (ahead s later))"

subsection \<open>ConcurrencyService\<close>

definition recordOperation :: "ConcurrencyConfig \<Rightarrow> bool \<Rightarrow> int \<Rightarrow> 'x world_scheme \<Rightarrow> 'x world_scheme" where
  "recordOperation cfg success latency w =
     (if \<not> enableMetrics cfg then w
      else w\<lparr> service_metrics := record_metrics success latency (now w) (service_metrics w) \<rparr>)"

text \<open>\<^verbatim>\<open>lastError?.message || 'Unknown error'\<close>\<close>

definition cause_of :: "js_error option \<Rightarrow> string" where
  "cause_of lastError =
     (case lastError of
        None \<Rightarrow> ''Unknown error''
      | Some e \<Rightarrow> (if truthy_str (message_of e) then the (message_of e) else ''Unknown error''))"

definition failure_text :: "int \<Rightarrow> js_error option \<Rightarrow> string" where
  "failure_text maxR lastError =
     ''Operation failed after '' @ toString 10 maxR @ '' attempts: '' @ cause_of lastError"

definition attempt_line :: "int \<Rightarrow> int \<Rightarrow> js_error \<Rightarrow> string" where
  "attempt_line attempt maxR error =
     ''ConcurrencyService: Operation failed (attempt '' @ toString 10 attempt @ ''/''
       @ toString 10 maxR @ ''): '' @ String_of error"

text \<open>The \<^verbatim>\<open>for\<close> loop of \<^verbatim>\<open>executeWithRetry\<close> from the test
  \<^verbatim>\<open>attempt <= maxRetries\<close> on.\<close>

function retry_from :: "ConcurrencyConfig \<Rightarrow> ('x world_scheme, 'a) async \<Rightarrow> int \<Rightarrow> int \<Rightarrow> int
    \<Rightarrow> js_error option \<Rightarrow> ('x world_scheme, 'a) async" where
  "retry_from cfg opn maxR startTime attempt lastError w =
     (if attempt \<le> maxR then
        (case opn w of
           (w1, p) \<Rightarrow>
             (w1, then_p p (\<lambda>r. case r of
                  Inr result \<Rightarrow>
                    (\<lambda>w2. (recordOperation cfg True (now w2 - startTime) w2, Settled (Inr result)))
                | Inl error \<Rightarrow>
                    (\<lambda>w2. let w3 = (if logOperations cfg
                                     then console_out (attempt_line attempt maxR error) w2 else w2)
                          in if attempt < maxR
                             then (w3, suspended (\<lambda>w4.
                                     retry_from cfg opn maxR startTime (attempt + 1) (Some error)
                                       (delay (calculateBackoffDelay attempt (baseDelayMs cfg) (maxDelayMs cfg)) w4)))
                             else retry_from cfg opn maxR startTime (attempt + 1) (Some error) w3))))
      else (recordOperation cfg False (now w - startTime) w,
            Settled (Inl (JsError ''Error'' (failure_text maxR lastError)))))"
  by pat_completeness auto
termination
  by (relation "measure (\<lambda>(cfg, opn, maxR, startTime, attempt, lastError, w). nat (maxR + 1 - attempt))") auto

declare retry_from.simps [simp del]

definition executeWithRetry :: "ConcurrencyConfig \<Rightarrow> ('x world_scheme, 'a) async \<Rightarrow> int
    \<Rightarrow> ('x world_scheme, 'a) async" where
  "executeWithRetry cfg opn maxR = (\<lambda>w. retry_from cfg opn maxR (now w) 1 None w)"

text \<open>\<^verbatim>\<open>executeAtomic\<close> as its caller sees it when nobody calls after it: the
  operation is enqueued behind whatever the queue holds and the event loop runs until
  the queue is idle; the outcome is that of the promise \<^verbatim>\<open>enqueue\<close> returned,
  \<open>None\<close> if it has not settled. What a caller of \<^verbatim>\<open>enqueue\<close> does once its own
  promise has settled is not part of a run of the queue.\<close>

definition executeAtomic :: "ConcurrencyConfig \<Rightarrow> ('x world_scheme, 'a) async
    \<Rightarrow> 'x world_scheme \<times> ('x world_scheme, 'a) WriteQueueService
    \<Rightarrow> (js_error + 'a) option \<times> 'x world_scheme \<times> ('x world_scheme, 'a) WriteQueueService" where
  "executeAtomic cfg opn s =
     (case s of (w, q) \<Rightarrow>
        (let startTime = now w in
         (case drain (enqueue opn (w, q)) of
            (w1, q1) \<Rightarrow>
              (case map_of (promises q1) (issued q) of
                 Some (Inr result) \<Rightarrow>
                   (Some (Inr result), recordOperation cfg True (now w1 - startTime) w1, q1)
               | Some (Inl error) \<Rightarrow>
                   (Some (Inl error), recordOperation cfg False (now w1 - startTime) w1, q1)
               | None \<Rightarrow> (None, w1, q1)))))"

definition executeAtomicWithRetry :: "ConcurrencyConfig \<Rightarrow> ('x world_scheme, 'a) async \<Rightarrow> int
    \<Rightarrow> 'x world_scheme \<times> ('x world_scheme, 'a) WriteQueueService
    \<Rightarrow> (js_error + 'a) option \<times> 'x world_scheme \<times> ('x world_scheme, 'a) WriteQueueService" where
  "executeAtomicWithRetry cfg opn maxR = executeAtomic cfg (\<lambda>w. executeWithRetry cfg opn maxR w)"

definition calculateCombinedAverageLatency :: "ConcurrencyMetrics \<Rightarrow> ConcurrencyMetrics \<Rightarrow> real" where
  "calculateCombinedAverageLatency metrics1 metrics2 =
     (let totalOps = totalOperations metrics1 + totalOperations metrics2
      in if totalOps = 0 then 0
         else (averageLatency metrics1 * real (totalOperations metrics1)
               + averageLatency metrics2 * real (totalOperations metrics2)) / real totalOps)"

text \<open>\<^verbatim>\<open>getMetrics()\<close> of the service over a \<^verbatim>\<open>WriteQueueService\<close>, which has
  \<^verbatim>\<open>getMetrics\<close>.\<close>

definition getMetrics :: "'x world_scheme \<times> ('x world_scheme, 'a) WriteQueueService \<Rightarrow> ConcurrencyMetrics" where
  "getMetrics s =
     (case s of (w, q) \<Rightarrow>
        (let queueMetrics = getQueueMetrics q; own = service_metrics w
         in \<lparr> totalOperations = totalOperations own + totalOperations queueMetrics,
              successfulOperations = successfulOperations own + successfulOperations queueMetrics,
              failedOperations = failedOperations own + failedOperations queueMetrics,
              averageLatency = calculateCombinedAverageLatency own queueMetrics,
              queueDepth = queueDepth queueMetrics,
              lastOperationTime = max (lastOperationTime own) (lastOperationTime queueMetrics) \<rparr>))"

definition resetMetrics :: "'x world_scheme \<times> ('x world_scheme, 'a) WriteQueueService
    \<Rightarrow> 'x world_scheme \<times> ('x world_scheme, 'a) WriteQueueService" where
  "resetMetrics s = (case s of (w, q) \<Rightarrow> (w\<lparr> service_metrics := zero_metrics \<rparr>, resetQueueMetrics q))"

text \<open>For stating what the loop does: the world a failed attempt leaves behind (the
  line on the console if \<^verbatim>\<open>logOperations\<close> is set, the backoff wait unless it was
  the last attempt), and the world in which attempt \<open>a + j\<close> starts when the loop is
  at attempt \<open>a\<close> in \<open>w\<close> and the attempts \<open>a, \<dots>, a + j - 1\<close> fail.\<close>

definition after_failure :: "ConcurrencyConfig \<Rightarrow> int \<Rightarrow> int \<Rightarrow> js_error + 'a \<Rightarrow> 'x world_scheme \<Rightarrow> 'x world_scheme" where
  "after_failure cfg maxR attempt r w2 =
     (let w3 = (if logOperations cfg then console_out (attempt_line attempt maxR (projl r)) w2 else w2)
      in if attempt < maxR
         then delay (calculateBackoffDelay attempt (baseDelayMs cfg) (maxDelayMs cfg)) w3
         else w3)"

fun before_attempt :: "ConcurrencyConfig \<Rightarrow> ('x world_scheme, 'a) async \<Rightarrow> int \<Rightarrow> int \<Rightarrow> nat
    \<Rightarrow> 'x world_scheme \<Rightarrow> 'x world_scheme" where
  "before_attempt cfg opn maxR a 0 w = w"
| "before_attempt cfg opn maxR a (Suc j) w =
     before_attempt cfg opn maxR (a + 1) j
       (after_failure cfg maxR a (fst (run_async opn w)) (snd (run_async opn w)))"

section \<open>Saving and deleting (core/storage-service.ts)\<close>

text \<open>
  The entries of a value that \<^verbatim>\<open>readPromptsMap\<close> resolved with. It resolves with an
  object or, for a stored \<^verbatim>\<open>null\<close>, with \<^verbatim>\<open>null\<close>, on which the lookup that
  precedes every assignment throws.
\<close>

fun entries :: "'r jsval \<Rightarrow> (string \<times> 'r) list" where
  "entries (JObject m) = m"
| "entries v = []"

text \<open>\<^verbatim>\<open>prev?.createdAt || (prompt as any).createdAt || Date.now()\<close>\<close>

definition pick_createdAt :: "'x entity_scheme option \<Rightarrow> 'x entity_scheme \<Rightarrow> int \<Rightarrow> int" where
  "pick_createdAt prev input t =
     (if truthy_num (case prev of None \<Rightarrow> None | Some p \<Rightarrow> createdAt p)
      then the (createdAt (the prev))
      else if truthy_num (createdAt input) then the (createdAt input)
      else t)"

text \<open>\<^verbatim>\<open>{ ...prev, ...prompt, id, createdAt, updatedAt: Date.now() }\<close>: the properties of
  \<open>prompt\<close> win over those of \<open>prev\<close>; a \<^verbatim>\<open>description\<close> that \<open>prompt\<close> does not
  have is taken from \<open>prev\<close>.\<close>

definition assemble_prompt :: "prompt_record option \<Rightarrow> prompt_record \<Rightarrow> string \<Rightarrow> int \<Rightarrow> int \<Rightarrow> prompt_record" where
  "assemble_prompt prev prompt i c u =
     \<lparr> ident = i, name = name prompt, createdAt = Some c, updatedAt = Some u,
       template = template prompt,
       description = (case description prompt of
                        Some d \<Rightarrow> Some d
                      | None \<Rightarrow> (case prev of None \<Rightarrow> None | Some p \<Rightarrow> description p)) \<rparr>"

definition assemble_context :: "context_record option \<Rightarrow> context_record \<Rightarrow> string \<Rightarrow> int \<Rightarrow> int \<Rightarrow> context_record" where
  "assemble_context prev ctx i c u =
     \<lparr> ident = i, name = name ctx, createdAt = Some c, updatedAt = Some u, ctext = ctext ctx \<rparr>"

text \<open>\<^verbatim>\<open>prompt.id || makeId()\<close>\<close>

definition id_or_fresh :: "'x entity_scheme \<Rightarrow> ('x entity_scheme) chrome \<Rightarrow> string \<times> ('x entity_scheme) chrome" where
  "id_or_fresh input w = (if ident input \<noteq> [] then (ident input, w) else makeId w)"

subsection \<open>savePrompt / saveContext\<close>

text \<open>The body of the \<^verbatim>\<open>try\<close> block: \<open>Inl\<close> is what it throws, \<open>Inr b\<close> says
  whether the entry was found on reading back.\<close>

definition save_attempt ::
  "(('x entity_scheme) chrome \<Rightarrow> (js_error + ('x entity_scheme) jsval) \<times> ('x entity_scheme) chrome)
   \<Rightarrow> ('x entity_scheme option \<Rightarrow> 'x entity_scheme \<Rightarrow> string \<Rightarrow> int \<Rightarrow> int \<Rightarrow> 'x entity_scheme)
   \<Rightarrow> 'x entity_scheme \<Rightarrow> string \<Rightarrow> ('x entity_scheme) chrome
   \<Rightarrow> (js_error + bool) \<times> ('x entity_scheme) chrome" where
  "save_attempt read assemble input i w =
     (case read w of
        (Inl err, w1) \<Rightarrow> (Inl err, w1)
      | (Inr m, w1) \<Rightarrow>
          (case js_index m i of
             Inl err \<Rightarrow> (Inl err, w1)
           | Inr found \<Rightarrow>
               (let prev = own_record found;
                    c = pick_createdAt prev input (now w1);
                    m' = assign (entries m) i (assemble prev input i c (now w1))
                in (case writeMap m' False w1 of
                      (Inl err, w2) \<Rightarrow> (Inl err, w2)
                    | (Inr u, w2) \<Rightarrow>
                        (case read w2 of
                           (Inl err, w3) \<Rightarrow> (Inl err, w3)
                         | (Inr after, w3) \<Rightarrow>
                             (case js_index after i of
                                Inl err \<Rightarrow> (Inl err, w3)
                              | Inr found \<Rightarrow> (Inr (truthy_member found), w3)))))))"

text \<open>The \<^verbatim>\<open>for (let attempt = 1; attempt <= 3; attempt++)\<close> loop and the
  \<^verbatim>\<open>throw\<close> after it.\<close>

function save_loop ::
  "string
   \<Rightarrow> (('x entity_scheme) chrome \<Rightarrow> (js_error + ('x entity_scheme) jsval) \<times> ('x entity_scheme) chrome)
   \<Rightarrow> ('x entity_scheme option \<Rightarrow> 'x entity_scheme \<Rightarrow> string \<Rightarrow> int \<Rightarrow> int \<Rightarrow> 'x entity_scheme)
   \<Rightarrow> 'x entity_scheme \<Rightarrow> string \<Rightarrow> int \<Rightarrow> js_error option \<Rightarrow> ('x entity_scheme) chrome
   \<Rightarrow> (js_error + unit) \<times> ('x entity_scheme) chrome" where
  "save_loop label read assemble input i attempt lastErr w =
     (if attempt \<le> 3 then
        (case save_attempt read assemble input i w of
           (Inr True, w1) \<Rightarrow> (Inr (), w1)
         | (Inr False, w1) \<Rightarrow>
             save_loop label read assemble input i (attempt + 1)
               (Some (JsError ''Error'' ''write did not persist entry, retrying'')) (delay 20 w1)
         | (Inl err, w1) \<Rightarrow>
             save_loop label read assemble input i (attempt + 1) (Some err) (delay 20 w1))
      else (Inl (JsError ''Error'' (label @ '' failed after retries: '' @ describe lastErr)), w))"
  by pat_completeness auto
termination
  by (relation "measure (\<lambda>(label, read, assemble, input, i, attempt, lastErr, w). nat (4 - attempt))") auto

declare save_loop.simps [simp del]

definition savePrompt :: "prompt_record \<Rightarrow> prompt_record chrome \<Rightarrow> (js_error + unit) \<times> prompt_record chrome" where
  "savePrompt prompt w =
     (case id_or_fresh prompt w of
        (i, w0) \<Rightarrow> save_loop ''savePrompt'' readPromptsMap assemble_prompt prompt i 1 None w0)"

definition saveContext :: "context_record \<Rightarrow> context_record chrome \<Rightarrow> (js_error + unit) \<times> context_record chrome" where
  "saveContext ctx w =
     (case id_or_fresh ctx w of
        (i, w0) \<Rightarrow> save_loop ''saveContext'' readContextsMap assemble_context ctx i 1 None w0)"

subsection \<open>deletePrompt / deleteContext\<close>

text \<open>The body of the \<^verbatim>\<open>try\<close> block; \<open>Inr b\<close> says whether the entry was gone on
  reading back. The map is written with \<^verbatim>\<open>writePromptsMap(map)\<close>, whose second
  parameter defaults to \<^verbatim>\<open>false\<close>.\<close>

definition delete_attempt ::
  "(('x entity_scheme) chrome \<Rightarrow> (js_error + ('x entity_scheme) jsval) \<times> ('x entity_scheme) chrome)
   \<Rightarrow> string \<Rightarrow> ('x entity_scheme) chrome \<Rightarrow> (js_error + bool) \<times> ('x entity_scheme) chrome" where
  "delete_attempt read i w =
     (case read w of
        (Inl err, w1) \<Rightarrow> (Inl err, w1)
      | (Inr m, w1) \<Rightarrow>
          (case hasOwnProperty m i of
             Inl err \<Rightarrow> (Inl err, w1)
           | Inr has \<Rightarrow>
               (let m' = (if has then AList.delete i (entries m) else entries m)
                in (case writeMap m' False w1 of
                      (Inl err, w2) \<Rightarrow> (Inl err, w2)
                    | (Inr u, w2) \<Rightarrow>
                        (case read w2 of
                           (Inl err, w3) \<Rightarrow> (Inl err, w3)
                         | (Inr after, w3) \<Rightarrow>
                             (case js_index after i of
                                Inl err \<Rightarrow> (Inl err, w3)
                              | Inr found \<Rightarrow> (Inr (\<not> truthy_member found), w3)))))))"

function delete_loop ::
  "string
   \<Rightarrow> (('x entity_scheme) chrome \<Rightarrow> (js_error + ('x entity_scheme) jsval) \<times> ('x entity_scheme) chrome)
   \<Rightarrow> string \<Rightarrow> int \<Rightarrow> js_error option \<Rightarrow> ('x entity_scheme) chrome
   \<Rightarrow> (js_error + unit) \<times> ('x entity_scheme) chrome" where
  "delete_loop label read i attempt lastErr w =
     (if attempt \<le> 3 then
        (case delete_attempt read i w of
           (Inr True, w1) \<Rightarrow> (Inr (), w1)
         | (Inr False, w1) \<Rightarrow>
             delete_loop label read i (attempt + 1)
               (Some (JsError ''Error'' ''delete did not persist, retrying'')) (delay 20 w1)
         | (Inl err, w1) \<Rightarrow>
             delete_loop label read i (attempt + 1) (Some err) (delay 20 w1))
      else (Inl (JsError ''Error'' (label @ '' failed after retries: '' @ describe lastErr)), w))"
  by pat_completeness auto
termination
  by (relation "measure (\<lambda>(label, read, i, attempt, lastErr, w). nat (4 - attempt))") auto

declare delete_loop.simps [simp del]

definition deletePrompt :: "string \<Rightarrow> prompt_record chrome \<Rightarrow> (js_error + unit) \<times> prompt_record chrome" where
  "deletePrompt i = delete_loop ''deletePrompt'' readPromptsMap i 1 None"

definition deleteContext :: "string \<Rightarrow> context_record chrome \<Rightarrow> (js_error + unit) \<times> context_record chrome" where
  "deleteContext i = delete_loop ''deleteContext'' readContextsMap i 1 None"

subsection \<open>The atomic variants\<close>

text \<open>The operations handed to \<^verbatim>\<open>executeAtomicWithRetry\<close>, each given by its effect
  as a whole.\<close>

definition save_operation ::
  "(('x entity_scheme) chrome \<Rightarrow> (js_error + ('x entity_scheme) jsval) \<times> ('x entity_scheme) chrome)
   \<Rightarrow> ('x entity_scheme option \<Rightarrow> 'x entity_scheme \<Rightarrow> string \<Rightarrow> int \<Rightarrow> int \<Rightarrow> 'x entity_scheme)
   \<Rightarrow> 'x entity_scheme \<Rightarrow> ('x entity_scheme) chrome
   \<Rightarrow> (js_error + unit) \<times> ('x entity_scheme) chrome" where
  "save_operation read assemble input w =
     (case id_or_fresh input w of
        (i, w0) \<Rightarrow>
          (case save_attempt read assemble input i w0 of
             (Inl err, w1) \<Rightarrow> (Inl err, w1)
           | (Inr found, w1) \<Rightarrow>
               (if \<not> found then (Inl (JsError ''Error'' ''Atomic write verification failed''), w1)
                else (Inr (), w1))))"

definition delete_operation ::
  "(('x entity_scheme) chrome \<Rightarrow> (js_error + ('x entity_scheme) jsval) \<times> ('x entity_scheme) chrome)
   \<Rightarrow> string \<Rightarrow> ('x entity_scheme) chrome \<Rightarrow> (js_error + unit) \<times> ('x entity_scheme) chrome" where
  "delete_operation read i w =
     (case read w of
        (Inl err, w1) \<Rightarrow> (Inl err, w1)
      | (Inr m, w1) \<Rightarrow>
          (case hasOwnProperty m i of
             Inl err \<Rightarrow> (Inl err, w1)
           | Inr has \<Rightarrow>
               (if has then
                  (case writeMap (AList.delete i (entries m)) True w1 of
                     (Inl err, w2) \<Rightarrow> (Inl err, w2)
                   | (Inr u, w2) \<Rightarrow>
                       (case read w2 of
                          (Inl err, w3) \<Rightarrow> (Inl err, w3)
                        | (Inr after, w3) \<Rightarrow>
                            (case js_index after i of
                               Inl err \<Rightarrow> (Inl err, w3)
                             | Inr found \<Rightarrow>
                                 (if truthy_member found
                                  then (Inl (JsError ''Error'' ''Atomic delete verification failed''), w3)
                                  else (Inr (), w3)))))
                else (Inr (), w1))))"

text \<open>The service with its optional \<^verbatim>\<open>concurrencyService\<close> (\<open>None\<close>: none was
  given to the constructor). A state is the world together with the write queue of
  the concurrency service; the outcome is \<open>None\<close> if the promise does not settle.\<close>

definition atomically ::
  "ConcurrencyConfig option
   \<Rightarrow> (('x world_scheme) \<Rightarrow> (js_error + unit) \<times> ('x world_scheme))
   \<Rightarrow> (('x world_scheme) \<Rightarrow> (js_error + unit) \<times> ('x world_scheme))
   \<Rightarrow> 'x world_scheme \<times> ('x world_scheme, unit) WriteQueueService
   \<Rightarrow> (js_error + unit) option \<times> 'x world_scheme \<times> ('x world_scheme, unit) WriteQueueService" where
  "atomically concurrencyService body fallback s =
     (case concurrencyService of
        Some cfg \<Rightarrow> executeAtomicWithRetry cfg (promised body) (maxRetries cfg) s
      | None \<Rightarrow> (case s of (w, q) \<Rightarrow> (case fallback w of (r, w1) \<Rightarrow> (Some r, w1, q))))"

definition savePromptAtomic ::
  "ConcurrencyConfig option \<Rightarrow> prompt_record
   \<Rightarrow> prompt_record chrome \<times> (prompt_record chrome, unit) WriteQueueService
   \<Rightarrow> (js_error + unit) option \<times> prompt_record chrome \<times> (prompt_record chrome, unit) WriteQueueService" where
  "savePromptAtomic concurrencyService prompt =
     atomically concurrencyService (save_operation readPromptsMap assemble_prompt prompt) (savePrompt prompt)"

definition saveContextAtomic ::
  "ConcurrencyConfig option \<Rightarrow> context_record
   \<Rightarrow> context_record chrome \<times> (context_record chrome, unit) WriteQueueService
   \<Rightarrow> (js_error + unit) option \<times> context_record chrome \<times> (context_record chrome, unit) WriteQueueService" where
  "saveContextAtomic concurrencyService ctx =
     atomically concurrencyService (save_operation readContextsMap assemble_context ctx) (saveContext ctx)"

definition deletePromptAtomic ::
  "ConcurrencyConfig option \<Rightarrow> string
   \<Rightarrow> prompt_record chrome \<times> (prompt_record chrome, unit) WriteQueueService
   \<Rightarrow> (js_error + unit) option \<times> prompt_record chrome \<times> (prompt_record chrome, unit) WriteQueueService" where
  "deletePromptAtomic concurrencyService i =
     atomically concurrencyService (delete_operation readPromptsMap i) (deletePrompt i)"

definition deleteContextAtomic ::
  "ConcurrencyConfig option \<Rightarrow> string
   \<Rightarrow> context_record chrome \<times> (context_record chrome, unit) WriteQueueService
   \<Rightarrow> (js_error + unit) option \<times> context_record chrome \<times> (context_record chrome, unit) WriteQueueService" where
  "deleteContextAtomic concurrencyService i =
     atomically concurrencyService (delete_operation readContextsMap i) (deleteContext i)"

text \<open>For stating the claims: a queue is idle when it satisfies its invariant and no
  call of \<^verbatim>\<open>processQueue\<close> is alive; \<open>holds_entry w i c u\<close> says that the stored
  map has an entry under \<open>i\<close> whose \<^verbatim>\<open>createdAt\<close> is \<open>c\<close> and whose
  \<^verbatim>\<open>updatedAt\<close> is \<open>u\<close>; \<open>has_entry\<close> that it has an entry under \<open>i\<close> at all.\<close>

definition idle_queue :: "('w, 'a) WriteQueueService \<Rightarrow> bool" where
  "idle_queue q = (queue_inv q \<and> loops q = [])"

definition holds_entry :: "('x entity_scheme) chrome \<Rightarrow> string \<Rightarrow> int option \<Rightarrow> int option \<Rightarrow> bool" where
  "holds_entry w i c u =
     (case js_index (stored w) i of
        Inr (Own r) \<Rightarrow> createdAt r = c \<and> updatedAt r = u
      | _ \<Rightarrow> False)"

definition has_entry :: "'r chrome \<Rightarrow> string \<Rightarrow> bool" where
  "has_entry w i = (case js_index (stored w) i of Inr (Own r) \<Rightarrow> True | _ \<Rightarrow> False)"

text \<open>A map is stamped when every record in it has a \<^verbatim>\<open>createdAt\<close> other than 0,
  as every record has that a save or the migration has written while the clock did not
  read 0.\<close>

definition stamped :: "(string \<times> 'x entity_scheme) list \<Rightarrow> bool" where
  "stamped m = (\<forall>(k, r) \<in> set m. truthy_num (createdAt r))"

text \<open>An assembling function is stamping when the record it builds has the
  \<^verbatim>\<open>createdAt\<close> and the \<^verbatim>\<open>updatedAt\<close> it is given, as both of the source do.\<close>

definition stamping :: "('x entity_scheme option \<Rightarrow> 'x entity_scheme \<Rightarrow> string \<Rightarrow> int \<Rightarrow> int \<Rightarrow> 'x entity_scheme) \<Rightarrow> bool" where
  "stamping assemble = (\<forall>prev input i c u. createdAt (assemble prev input i c u) = Some c
      \<and> updatedAt (assemble prev input i c u) = Some u)"

section \<open>Concrete worlds and operations\<close>

definition world0 :: world where
  "world0 = \<lparr> now = 0, console = [], timers = [], service_metrics = zero_metrics \<rparr>"

definition noop :: "(world, unit) async" where
  "noop = promised (\<lambda>w. (Inr (), w))"

text \<open>An operation that leaves a line on the console each time it is called, rejects
  twice and then resolves with 7; and one that rejects every time, with an
  \<^verbatim>\<open>Error\<close> whose message is empty.\<close>

definition flaky :: "(world, nat) async" where
  "flaky = promised (\<lambda>w. (if length (console w) < 2 then Inl (JsError ''Error'' ''boom'') else Inr 7,
                               console_out ''called'' w))"

definition silent_failure :: "(world, nat) async" where
  "silent_failure = promised (\<lambda>w. (Inl (JsError ''Error'' []), console_out ''called'' w))"

text \<open>Two callers of \<^verbatim>\<open>executeAtomicWithRetry\<close> on one service, each by what
  \<^verbatim>\<open>executeAtomic\<close> hands to \<^verbatim>\<open>enqueue\<close> for it, the function that runs the
  retry loop: the first passes \<open>silent_failure\<close>, the second \<open>flaky\<close>.\<close>

definition first_caller :: "(world, nat) event" where
  "first_caller = Enqueue (executeWithRetry DEFAULT_CONCURRENCY_CONFIG silent_failure 3)"

definition second_caller :: "(world, nat) event" where
  "second_caller = Enqueue (executeWithRetry DEFAULT_CONCURRENCY_CONFIG flaky 3)"

text \<open>The rejection message in the words of the specification.\<close>

definition claimed_failure_text :: "int \<Rightarrow> string \<Rightarrow> string" where
  "claimed_failure_text n cause = ''operation failed after '' @ toString 10 n @ '' retries: '' @ cause"

text \<open>A prompt map and a context map with one record each, created at time 5, and the
  same prompt map with a record whose \<^verbatim>\<open>createdAt\<close> is 0; the clock reads 1000. The
  inputs are what a caller passes to save: no time stamps.\<close>

definition record_p1 :: "int \<Rightarrow> prompt_record" where
  "record_p1 c = \<lparr> ident = ''p1'', name = ''x'', createdAt = Some c, updatedAt = Some c,
     template = ''t'', description = Some ''d'' \<rparr>"

definition record_c1 :: "int \<Rightarrow> context_record" where
  "record_c1 c = \<lparr> ident = ''c1'', name = ''n'', createdAt = Some c, updatedAt = Some c,
     ctext = ''some text'' \<rparr>"

definition chrome_with :: "'r jsval \<Rightarrow> 'r chrome" where
  "chrome_with v = \<lparr> now = 1000, console = [], timers = [], service_metrics = zero_metrics,
     stored = v, lastErrors = [], randoms = [] \<rparr>"

definition input_p1 :: prompt_record where
  "input_p1 = \<lparr> ident = ''p1'', name = ''y'', createdAt = None, updatedAt = None,
     template = ''t2'', description = Some [] \<rparr>"

definition input_c1 :: context_record where
  "input_c1 = \<lparr> ident = ''c1'', name = ''m'', createdAt = None, updatedAt = None,
     ctext = ''other text'' \<rparr>"

text \<open>Maps with three records created at times 3, 1 and 2, in that order of
  enumeration, and one with two records created at the same time.\<close>

definition prompt_at :: "string \<Rightarrow> int \<Rightarrow> prompt_record" where
  "prompt_at i c = \<lparr> ident = i, name = ''x'', createdAt = Some c, updatedAt = Some c,
     template = ''t'', description = None \<rparr>"

definition context_at :: "string \<Rightarrow> int \<Rightarrow> context_record" where
  "context_at i c = \<lparr> ident = i, name = ''n'', createdAt = Some c, updatedAt = Some c,
     ctext = ''some text'' \<rparr>"

definition prompts_312 :: "(string \<times> prompt_record) list" where
  "prompts_312 = [(''a'', prompt_at ''a'' 3), (''b'', prompt_at ''b'' 1), (''c'', prompt_at ''c'' 2)]"

definition contexts_312 :: "(string \<times> context_record) list" where
  "contexts_312 = [(''a'', context_at ''a'' 3), (''b'', context_at ''b'' 1), (''c'', context_at ''c'' 2)]"

definition prompts_tied :: "(string \<times> prompt_record) list" where
  "prompts_tied = [(''b'', prompt_at ''b'' 7), (''a'', prompt_at ''a'' 7)]"

text \<open>The store holding the one prompt, and the one holding the one context.\<close>

definition one_prompt :: "prompt_record chrome" where
  "one_prompt = chrome_with (JObject [(''p1'', record_p1 5)])"

definition one_context :: "context_record chrome" where
  "one_context = chrome_with (JObject [(''c1'', record_c1 5)])"

section \<open>Properties of the record store\<close>


lemma mset_insert_by: "mset (insert_by cmp x xs) = add_mset x (mset xs)"
  by (induction xs) auto

lemma mset_Array_sort: "mset (Array_sort cmp xs) = mset xs"
  by (induction xs) (auto simp: Array_sort_def mset_insert_by)

lemma set_insert_by: "set (insert_by cmp x xs) = insert x (set xs)"
  by (induction xs) auto

lemma sorted_insert_by:
  assumes tot: "\<And>a b. cmp a b \<le> 0 \<or> cmp b a \<le> 0"
    and trans: "\<And>a b c. cmp a b \<le> 0 \<Longrightarrow> cmp b c \<le> 0 \<Longrightarrow> cmp a c \<le> 0"
  shows "sorted_wrt (\<lambda>a b. cmp a b \<le> 0) xs \<Longrightarrow> sorted_wrt (\<lambda>a b. cmp a b \<le> 0) (insert_by cmp x xs)"
proof (induction xs)
  case Nil
  then show ?case by simp
next
  case (Cons y ys)
  show ?case
  proof (cases "cmp x y \<le> 0")
    case True
    with Cons.prems trans show ?thesis by auto
  next
    case False
    with tot have "cmp y x \<le> 0" by blast
    with False Cons show ?thesis by (auto simp: set_insert_by)
  qed
qed

lemma sorted_Array_sort:
  assumes tot: "\<And>a b. cmp a b \<le> 0 \<or> cmp b a \<le> 0"
    and trans: "\<And>a b c. cmp a b \<le> 0 \<Longrightarrow> cmp b c \<le> 0 \<Longrightarrow> cmp a c \<le> 0"
  shows "sorted_wrt (\<lambda>a b. cmp a b \<le> 0) (Array_sort cmp xs)"
proof (induction xs)
  case Nil
  then show ?case by (simp add: Array_sort_def)
next
  case (Cons x xs)
  have "Array_sort cmp (x # xs) = insert_by cmp x (Array_sort cmp xs)"
    by (simp add: Array_sort_def)
  with Cons sorted_insert_by[of cmp, OF tot trans] show ?case by simp
qed


lemma by_createdAt_le:
  "by_createdAt lc m a b \<le> 0 \<longleftrightarrow> created_or_zero m a < created_or_zero m b \<or> (created_or_zero m a = created_or_zero m b \<and> lc (ident a) (ident b) \<le> 0)"
  unfolding by_createdAt_def Let_def by auto


lemma lex_total: "A \<or> B \<Longrightarrow> ((x::int) < y \<or> x = y \<and> A) \<or> (y < x \<or> y = x \<and> B)"
  by (cases "x < y"; cases "y < x") simp_all

lemma lex_trans:
  "(A \<Longrightarrow> B \<Longrightarrow> C) \<Longrightarrow> ((x::int) < y \<or> x = y \<and> A) \<Longrightarrow> (y < z \<or> y = z \<and> B) \<Longrightarrow> (x < z \<or> x = z \<and> C)"
  by (cases "x < y"; cases "y < z") auto

lemma by_createdAt_total:
  assumes "consistent_compare lc"
  shows "by_createdAt lc m a b \<le> 0 \<or> by_createdAt lc m b a \<le> 0"
proof -
  from assms have "lc (ident a) (ident b) \<le> 0 \<or> lc (ident b) (ident a) \<le> 0"
    unfolding consistent_compare_def by blast
  then show ?thesis
    unfolding by_createdAt_le by (rule lex_total)
qed

lemma by_createdAt_trans:
  assumes "consistent_compare lc" "by_createdAt lc m a b \<le> 0" "by_createdAt lc m b c \<le> 0"
  shows "by_createdAt lc m a c \<le> 0"
proof -
  from assms(1) have tr: "lc (ident a) (ident b) \<le> 0 \<Longrightarrow> lc (ident b) (ident c) \<le> 0 \<Longrightarrow> lc (ident a) (ident c) \<le> 0"
    unfolding consistent_compare_def by blast
  from tr assms(2,3) show ?thesis
    unfolding by_createdAt_le by (rule lex_trans)
qed




lemma next_error_none: "lastErrors w = [] \<Longrightarrow> next_error w = (None, w)"
  by (simp add: next_error_def)

lemma storage_get_ok: "lastErrors w = [] \<Longrightarrow> storage_get w = (Inr (stored w), w)"
  by (simp add: storage_get_def next_error_none)

lemma readMap_object:
  "stored w = JObject m \<Longrightarrow> lastErrors w = [] \<Longrightarrow> readMap warn w = (Inr (JObject m), w)"
  by (simp add: readMap_def storage_get_ok)

lemma own_record_member_of [simp]: "own_record (member_of m k) = map_of m k"
  by (simp add: member_of_def split: option.splits)

lemma truthy_member_of [simp]:
  "truthy_member (member_of m k) = (map_of m k \<noteq> None \<or> k \<in> set Object_prototype)"
  by (simp add: member_of_def split: option.splits)

lemma member_of_Own [simp]: "(member_of m k = Own r) = (map_of m k = Some r)"
  by (simp add: member_of_def split: option.splits)

lemma member_of_Some: "map_of m k = Some r \<Longrightarrow> member_of m k = Own r"
  by simp

lemma member_of_None:
  "map_of m k = None \<Longrightarrow> member_of m k = (if k \<in> set Object_prototype then Inherited else Missing)"
  by (simp add: member_of_def)

lemma assign_update:
  "i \<noteq> ''__proto__'' \<or> map_of m i \<noteq> None \<Longrightarrow> assign m i r = AList.update i r m"
  by (auto simp: assign_def)

lemma hasOwnProperty_object:
  "map_of m ''hasOwnProperty'' = None \<Longrightarrow> hasOwnProperty (JObject m) k = Inr (k \<in> fst ` set m)"
  by simp

text \<open>A read yields an object or \<^verbatim>\<open>null\<close>, or fails.\<close>

lemma readMap_shape:
  "fst (readMap warn w) = Inr v \<Longrightarrow> (\<exists>m. v = JObject m) \<or> v = JNull"
  by (cases "stored w"; cases "lastErrors w")
     (auto simp: readMap_def storage_get_def next_error_def Let_def
        split: prod.splits sum.splits option.splits if_splits)

lemma created_or_zero_keyed:
  assumes "keyed_by_id m" "(k, r) \<in> set m" "ident (project r) = ident r"
  shows "created_or_zero (JObject m) (project r) = stamp r"
proof -
  from assms have "map_of m (ident r) = Some r"
    by (auto simp: keyed_by_id_def)
  with assms(3) show ?thesis by (simp add: created_or_zero_def stamp_def member_of_Some)
qed

lemma getList_sorted:
  assumes lc: "consistent_compare lc"
    and st: "stored w = JObject m" "lastErrors w = []"
    and keyed: "keyed_by_id m"
    and proj: "\<And>r. ident (project r) = ident r"
  shows "\<exists>xs. getList lc (readMap warn) project w = (Inr xs, w)
           \<and> mset xs = mset (map project (map snd m))
           \<and> sorted_wrt (\<lambda>a b. created_or_zero (JObject m) a < created_or_zero (JObject m) b
                 \<or> (created_or_zero (JObject m) a = created_or_zero (JObject m) b
                     \<and> lc (ident a) (ident b) \<le> 0)) xs
           \<and> map (created_or_zero (JObject m)) xs = sort (map stamp (map snd m))"
proof -
  let ?cmp = "by_createdAt lc (JObject m)"
  let ?xs = "Array_sort ?cmp (map project (map snd m))"
  let ?ts = "created_or_zero (JObject m)"
  have run: "getList lc (readMap warn) project w = (Inr ?xs, w)"
    using st by (simp add: getList_def readMap_object)
  have ms: "mset ?xs = mset (map project (map snd m))"
    by (rule mset_Array_sort)
  have "sorted_wrt (\<lambda>a b. ?cmp a b \<le> 0) ?xs"
    using by_createdAt_total[OF lc] by_createdAt_trans[OF lc]
    by (rule sorted_Array_sort)
  then have srt: "sorted_wrt (\<lambda>a b. ?ts a < ?ts b \<or> (?ts a = ?ts b \<and> lc (ident a) (ident b) \<le> 0)) ?xs"
    by (simp add: by_createdAt_le)
  then have "sorted_wrt (\<lambda>a b. ?ts a \<le> ?ts b) ?xs"
    by (rule sorted_wrt_mono_rel[rotated]) auto
  then have s2: "sorted (map ?ts ?xs)"
    by (simp add: sorted_wrt_map)
  have "mset (map ?ts ?xs) = image_mset ?ts (mset (map project (map snd m)))"
    using ms by (metis mset_map)
  also have "\<dots> = mset (map (\<lambda>p. ?ts (project (snd p))) m)"
    by (simp add: multiset.map_comp comp_def)
  also have "\<dots> = mset (map (\<lambda>p. stamp (snd p)) m)"
  proof -
    have "map (\<lambda>p. ?ts (project (snd p))) m = map (\<lambda>p. stamp (snd p)) m"
    proof (rule map_cong[OF refl])
      fix p assume "p \<in> set m"
      then have "(fst p, snd p) \<in> set m" by simp
      then show "?ts (project (snd p)) = stamp (snd p)"
        using keyed proj by (intro created_or_zero_keyed[where k = "fst p"]) auto
    qed
    then show ?thesis by (rule arg_cong)
  qed
  finally have "mset (map ?ts ?xs) = mset (map stamp (map snd m))"
    by (simp add: comp_def)
  with s2 have "sort (map stamp (map snd m)) = map ?ts ?xs"
    by (metis properties_for_sort)
  with run ms srt show ?thesis by auto
qed




lemma storage_set_ok: "lastErrors w = [] \<Longrightarrow> storage_set v w = (Inr (), w\<lparr> stored := v \<rparr>)"
  by (simp add: storage_set_def next_error_none)

lemma map_of_spread_rev: "map_of (spread c m) = map_of c ++ map_of (rev m)"
proof -
  have "map_of (foldl (\<lambda>acc (k, v). AList.update k v acc) c m) = map_of c ++ map_of (rev m)" for c
  proof (induction m arbitrary: c)
    case Nil
    then show ?case by simp
  next
    case (Cons p m)
    obtain k v where p: "p = (k, v)" by (cases p)
    show ?case
      unfolding p
      by (simp add: Cons.IH update_conv') (auto simp: map_add_def fun_eq_iff split: option.splits)
  qed
  then show ?thesis by (simp add: spread_def)
qed

lemma map_of_rev_distinct: "distinct (map fst m) \<Longrightarrow> map_of (rev m) = map_of m"
proof -
  assume d: "distinct (map fst m)"
  then have "distinct (map fst (rev m))" by (simp only: rev_map[symmetric] distinct_rev)
  then show ?thesis using d by (subst map_of_inject_set) simp_all
qed

lemma map_of_spread: "distinct (map fst m) \<Longrightarrow> map_of (spread c m) = map_of c ++ map_of m"
  by (simp add: map_of_spread_rev map_of_rev_distinct)

lemma writeMap_replace:
  "lastErrors w = [] \<Longrightarrow> writeMap m True w = (Inr (), w\<lparr> stored := JObject m \<rparr>)"
  by (simp add: writeMap_def storage_set_ok)

lemma writeMap_merge:
  "lastErrors w = [] \<Longrightarrow> stored w = JObject c \<Longrightarrow>
   writeMap m False w = (Inr (), w\<lparr> stored := JObject (spread c m) \<rparr>)"
  by (simp add: writeMap_def storage_get_ok storage_set_ok)

lemma readMap_null:
  "lastErrors w = [] \<Longrightarrow> stored w = JNull \<Longrightarrow> readMap warn w = (Inr JNull, w)"
  by (simp add: readMap_def storage_get_ok)

lemma readMap_absent:
  "lastErrors w = [] \<Longrightarrow> stored w = JUndefined \<Longrightarrow> readMap warn w = (Inr (JObject []), w)"
  by (simp add: readMap_def storage_get_ok)

lemma readMap_primitive:
  "lastErrors w = [] \<Longrightarrow> typeof (stored w) \<noteq> ''object'' \<Longrightarrow> stored w \<noteq> JUndefined \<Longrightarrow>
   readMap warn w = (Inr (JObject []), console_out warn w)"
  by (cases "stored w") (simp_all add: readMap_def storage_get_ok)




lemma spread_within:
  "\<forall>(k, v) \<in> set m. map_of c k = Some v \<Longrightarrow> spread c m = c"
proof -
  assume h: "\<forall>(k, v) \<in> set m. map_of c k = Some v"
  have "foldl (\<lambda>acc (k, v). AList.update k v acc) c m = c"
    using h by (induction m) (auto simp: update_triv)
  then show ?thesis by (simp add: spread_def)
qed

lemma spread_self: "distinct (map fst m) \<Longrightarrow> spread m m = m"
  by (rule spread_within) auto

lemma spread_deleted: "distinct (map fst m) \<Longrightarrow> spread m (AList.delete i m) = m"
  by (rule spread_within) (auto simp: AList.delete_eq)

lemma distinct_spread: "distinct (map fst c) \<Longrightarrow> distinct (map fst (spread c m))"
proof -
  have "distinct (map fst c) \<Longrightarrow> distinct (map fst (foldl (\<lambda>acc (k, v). AList.update k v acc) c m))" for c
    by (induction m arbitrary: c) (auto simp: distinct_update)
  then show "distinct (map fst c) \<Longrightarrow> distinct (map fst (spread c m))" by (simp add: spread_def)
qed

lemma stored_same [simp]: "stored w = v \<Longrightarrow> w\<lparr> stored := v \<rparr> = w"
  by auto

lemma delay_chrome [simp]:
  "stored (delay ms w) = stored w" "lastErrors (delay ms w) = lastErrors w"
  by (simp_all add: delay_def)

text \<open>save\<close>

lemma save_attempt_ok:
  fixes assemble input i
  assumes "lastErrors w = []" "stored w = JObject m" "distinct (map fst m)"
    and "i \<noteq> ''__proto__'' \<or> map_of m i \<noteq> None"
  defines "r \<equiv> assemble (map_of m i) input i (pick_createdAt (map_of m i) input (now w)) (now w)"
  shows "save_attempt (readMap warn) assemble input i w
           = (Inr True, w\<lparr> stored := JObject (spread m (AList.update i r m)) \<rparr>)"
    and "map_of (spread m (AList.update i r m)) = (map_of m)(i \<mapsto> r)"
proof -
  have d: "distinct (map fst (AList.update i r m))" using assms(3) by (simp add: distinct_update)
  show 2: "map_of (spread m (AList.update i r m)) = (map_of m)(i \<mapsto> r)"
    by (simp add: map_of_spread[OF d] update_conv' map_add_subsumed1 map_le_refl)
  show "save_attempt (readMap warn) assemble input i w
           = (Inr True, w\<lparr> stored := JObject (spread m (AList.update i r m)) \<rparr>)"
    using assms(1,2) 2
    by (simp add: save_attempt_def readMap_object writeMap_merge Let_def r_def assign_update[OF assms(4)])
qed

lemma save_loop_ok:
  assumes "lastErrors w = []" "stored w = JObject m" "distinct (map fst m)"
    and "i \<noteq> ''__proto__'' \<or> map_of m i \<noteq> None"
  shows "save_loop label (readMap warn) assemble input i 1 None w
           = (Inr (), w\<lparr> stored := JObject (spread m (AList.update i
                 (assemble (map_of m i) input i (pick_createdAt (map_of m i) input (now w)) (now w)) m)) \<rparr>)"
  by (subst save_loop.simps) (simp add: save_attempt_ok[OF assms])

lemma save_operation_ok:
  assumes "lastErrors w = []" "stored w = JObject m" "distinct (map fst m)" "ident input \<noteq> []"
    and "ident input \<noteq> ''__proto__'' \<or> map_of m (ident input) \<noteq> None"
  shows "save_operation (readMap warn) assemble input w
           = (Inr (), w\<lparr> stored := JObject (spread m (AList.update (ident input)
                 (assemble (map_of m (ident input)) input (ident input)
                    (pick_createdAt (map_of m (ident input)) input (now w)) (now w)) m)) \<rparr>)"
  using assms(4) by (simp add: save_operation_def id_or_fresh_def save_attempt_ok[OF assms(1,2,3,5)])

text \<open>Every writer keeps the map keyed by id: the migration of a legacy array and a
  save build each entry with its key as \<^verbatim>\<open>id\<close>.\<close>

lemma keyed_by_id_map_of:
  "keyed_by_id m \<longleftrightarrow> distinct (map fst m) \<and> (\<forall>k r. map_of m k = Some r \<longrightarrow> ident r = k)"
  unfolding keyed_by_id_def by (auto dest: map_of_SomeD)

lemma keyed_by_id_update:
  assumes "keyed_by_id m" "ident r = i"
  shows "keyed_by_id (AList.update i r m)"
  using assms unfolding keyed_by_id_map_of
  by (auto simp: distinct_update update_conv' split: if_splits)

lemma keyed_by_id_spread:
  assumes "keyed_by_id c" "keyed_by_id m"
  shows "keyed_by_id (spread c m)"
proof -
  from assms have d: "distinct (map fst m)" "distinct (map fst c)" by (simp_all add: keyed_by_id_def)
  have "map_of (spread c m) = map_of c ++ map_of m" using d(1) by (rule map_of_spread)
  moreover have "distinct (map fst (spread c m))" using d(2) by (rule distinct_spread)
  ultimately show ?thesis
    using assms unfolding keyed_by_id_map_of by (auto simp: map_add_Some_iff)
qed

lemma keyed_by_id_assign:
  assumes "keyed_by_id m" "ident r = i"
  shows "keyed_by_id (assign m i r)"
  using assms by (simp add: assign_def keyed_by_id_update)

lemma migrate_keyed:
  "keyed_by_id m \<Longrightarrow> keyed_by_id (fst (migrate arr m w))"
proof (induction arr arbitrary: m w)
  case Nil
  then show ?case by simp
next
  case (Cons item arr)
  show ?case
    by (simp add: Let_def split: prod.splits) (auto intro!: Cons.IH keyed_by_id_assign Cons.prems)
qed

lemma assemble_ident:
  "ident (assemble_prompt prev p i c u) = i" "ident (assemble_context prev' x i c u) = i"
  by (simp_all add: assemble_prompt_def assemble_context_def)

lemma save_keeps_keyed:
  assumes "lastErrors w = []" "stored w = JObject m" "keyed_by_id m"
    and "\<forall>prev inp j c u. ident (assemble prev inp j c u) = j"
    and "i \<noteq> ''__proto__'' \<or> map_of m i \<noteq> None"
  shows "\<exists>m'. save_loop label (readMap warn) assemble input i 1 None w = (Inr (), w\<lparr> stored := JObject m' \<rparr>)
            \<and> keyed_by_id m'"
proof -
  let ?r = "assemble (map_of m i) input i (pick_createdAt (map_of m i) input (now w)) (now w)"
  from assms(3) have d: "distinct (map fst m)" by (simp add: keyed_by_id_def)
  have "keyed_by_id (AList.update i ?r m)"
    using assms(3) by (rule keyed_by_id_update) (simp add: assms(4))
  with assms(3) have "keyed_by_id (spread m (AList.update i ?r m))" by (rule keyed_by_id_spread)
  with save_loop_ok[OF assms(1,2) d assms(5), of label warn assemble input] show ?thesis by blast
qed

text \<open>delete\<close>

lemma delete_attempt_absent:
  assumes "lastErrors w = []" "stored w = JObject m" "distinct (map fst m)" "map_of m i = None"
    and "map_of m ''hasOwnProperty'' = None" "i \<notin> set Object_prototype"
  shows "delete_attempt (readMap warn) i w = (Inr True, w)"
proof -
  from assms(4) have "i \<notin> fst ` set m" by (simp add: map_of_eq_None_iff)
  then show ?thesis
    using assms
    by (simp add: delete_attempt_def readMap_object writeMap_merge spread_self)
qed

lemma delete_attempt_present:
  assumes "lastErrors w = []" "stored w = JObject m" "distinct (map fst m)" "map_of m i = Some r"
    and "map_of m ''hasOwnProperty'' = None"
  shows "delete_attempt (readMap warn) i w = (Inr False, w)"
proof -
  from assms(4) have "i \<in> fst ` set m" by (metis map_of_eq_None_iff option.distinct(1))
  then show ?thesis
    using assms
    by (simp add: delete_attempt_def readMap_object writeMap_merge spread_deleted)
qed

lemma delete_loop_absent:
  assumes "lastErrors w = []" "stored w = JObject m" "distinct (map fst m)" "map_of m i = None"
    and "map_of m ''hasOwnProperty'' = None" "i \<notin> set Object_prototype"
  shows "delete_loop label (readMap warn) i 1 None w = (Inr (), w)"
  by (subst delete_loop.simps) (simp add: delete_attempt_absent[OF assms])

lemma delete_loop_present:
  assumes "lastErrors w = []" "stored w = JObject m" "distinct (map fst m)" "map_of m i = Some r"
    and "map_of m ''hasOwnProperty'' = None"
  shows "delete_loop label (readMap warn) i 1 None w
           = (Inl (JsError ''Error'' (label @ '' failed after retries: delete did not persist, retrying'')),
              delay 20 (delay 20 (delay 20 w)))"
proof -
  have a: "delete_attempt (readMap warn) i v = (Inr False, v)"
    if "lastErrors v = []" "stored v = JObject m" for v
    using that assms(3,4,5) by (rule delete_attempt_present)
  show ?thesis
    apply (subst delete_loop.simps)
    apply (simp add: a assms)
    apply (subst delete_loop.simps)
    apply (simp add: a assms)
    apply (subst delete_loop.simps)
    apply (simp add: a assms)
    apply (subst delete_loop.simps)
    apply (simp add: describe_def truthy_str_def)
    done
qed

lemma delete_operation_absent:
  assumes "lastErrors w = []" "stored w = JObject m" "map_of m i = None"
    and "map_of m ''hasOwnProperty'' = None"
  shows "delete_operation (readMap warn) i w = (Inr (), w)"
proof -
  from assms(3) have "i \<notin> fst ` set m" by (simp add: map_of_eq_None_iff)
  then show ?thesis using assms by (simp add: delete_operation_def readMap_object)
qed

lemma delete_operation_present:
  assumes "lastErrors w = []" "stored w = JObject m" "map_of m i = Some r"
    and "map_of m ''hasOwnProperty'' = None" "i \<notin> set Object_prototype"
  shows "delete_operation (readMap warn) i w = (Inr (), w\<lparr> stored := JObject (AList.delete i m) \<rparr>)"
proof -
  from assms(3) have "i \<in> fst ` set m" by (metis map_of_eq_None_iff option.distinct(1))
  then show ?thesis
    using assms
    by (simp add: delete_operation_def readMap_object writeMap_replace delete_conv')
qed


section \<open>Properties of the write queue\<close>


lemma upt_split_head: "xs @ a # ys = [0..<n] \<Longrightarrow> a = length xs"
proof -
  assume h: "xs @ a # ys = [0..<n]"
  then have "length xs < n" by (metis length_append length_upt diff_zero length_Cons less_add_Suc1 add_Suc_right)
  moreover have "(xs @ a # ys) ! length xs = a" by simp
  ultimately show ?thesis using h by (metis add_0 nth_upt)
qed

lemma queue_inv_new: "queue_inv new_queue"
  by (simp add: queue_inv_def new_queue_def executing_def)

lemma queue_inv_enqueue:
  assumes "queue_inv q"
  shows "queue_inv (snd (enqueue opn (w, q)))"
proof (cases "loops q")
  case Nil
  with assms have idle: "\<not> processing q" "queue q = []" "executing q = []"
    and ids: "map fst (promises q) = [0..<issued q]"
    and r: "sorted (ran q)" "\<forall>x \<in> set (ran q). x < length (promises q)"
    by (auto simp: queue_inv_def executing_def)
  from ids have len: "length (promises q) = issued q"
    by (metis length_map length_upt diff_zero)
  show ?thesis
    using Nil idle ids r len
    by (auto simp: enqueue_def processQueue_def next_turn_def updateQueueDepth_def Let_def
        queue_inv_def executing_def sorted_append split: prod.splits)
next
  case (Cons l ls)
  with assms have ls: "ls = []" and busy: "processing q" by (auto simp: queue_inv_def)
  show ?thesis
    using assms Cons ls busy
    by (auto simp: enqueue_def processQueue_def updateQueueDepth_def Let_def
        queue_inv_def executing_def)
qed


lemma queue_inv_resume:
  assumes "queue_inv q"
  shows "queue_inv (snd (resume i (w, q)))"
proof (cases "i < length (loops q)")
  case False
  with assms show ?thesis by (simp add: resume_def)
next
  case True
  with assms obtain l where l: "loops q = [l]" and i: "i = 0"
    by (cases "loops q") (auto simp: queue_inv_def)
  show ?thesis
  proof (cases l)
    case (Awaiting opn p)
    with assms l have ids: "map fst (promises q) @ op_id opn # map op_id (queue q) = [0..<issued q]"
      by (simp add: queue_inv_def executing_def)
    then have a: "op_id opn = length (promises q)"
      using upt_split_head[of "map fst (promises q)"] by simp
    show ?thesis
    proof (cases p)
      case (Settled r)
      with assms l i Awaiting ids show ?thesis
        by (auto simp: resume_def queue_inv_def executing_def)
    next
      case (Await e k)
      with assms l i Awaiting a show ?thesis
        by (auto simp: resume_def queue_inv_def executing_def sorted_append)
    qed
  next
    case Resuming
    show ?thesis
    proof (cases "queue q")
      case Nil
      with assms l i Resuming show ?thesis
        by (auto simp: resume_def next_turn_def queue_inv_def executing_def)
    next
      case (Cons opn rest)
      with assms l Resuming have ids: "map fst (promises q) @ op_id opn # map op_id rest = [0..<issued q]"
        by (simp add: queue_inv_def executing_def)
      then have a: "op_id opn = length (promises q)"
        using upt_split_head[of "map fst (promises q)"] by simp
      with assms l i Resuming Cons ids show ?thesis
        by (auto simp: resume_def next_turn_def updateQueueDepth_def Let_def queue_inv_def
            executing_def sorted_append split: prod.splits)
    qed
  qed
qed

lemma queue_inv_fire: "queue_inv (snd s) \<Longrightarrow> queue_inv (snd (fire ev s))"
  by (cases ev; cases s) (simp_all add: queue_inv_enqueue queue_inv_resume)

lemma queue_inv_exec: "queue_inv (snd s) \<Longrightarrow> queue_inv (snd (exec evs s))"
  unfolding exec_def
  by (induction evs arbitrary: s) (simp_all add: queue_inv_fire)



lemma exec_append: "exec (xs @ ys) s = exec ys (exec xs s)"
  by (simp add: exec_def)

lemma exec_Cons: "exec (ev # evs) s = exec evs (fire ev s)"
  by (simp add: exec_def)

lemma exec_Nil: "exec [] s = s"
  by (simp add: exec_def)

lemma fast_forward:
  "loops q = Awaiting opn p # ls \<Longrightarrow>
   exec (replicate (turns p w) (Resume 0)) (w, q)
     = (snd (finish p w), q\<lparr> loops := Awaiting opn (Settled (fst (finish p w))) # ls,
                              ran := ran q @ replicate (turns p w) (op_id opn) \<rparr>)"
proof (induction p arbitrary: w q)
  case (Settled r)
  then show ?case by (simp add: exec_Nil)
next
  case (Await e k)
  have step: "resume 0 (w, q) = (e w, q\<lparr> loops := Awaiting opn (k w) # ls, ran := ran q @ [op_id opn] \<rparr>)"
    using Await.prems by (simp add: resume_def)
  have "exec (replicate (turns (k w) (e w)) (Resume 0))
          (e w, q\<lparr> loops := Awaiting opn (k w) # ls, ran := ran q @ [op_id opn] \<rparr>)
        = (snd (finish (k w) (e w)),
           (q\<lparr> loops := Awaiting opn (k w) # ls, ran := ran q @ [op_id opn] \<rparr>)
             \<lparr> loops := Awaiting opn (Settled (fst (finish (k w) (e w)))) # ls,
               ran := ran (q\<lparr> loops := Awaiting opn (k w) # ls, ran := ran q @ [op_id opn] \<rparr>)
                        @ replicate (turns (k w) (e w)) (op_id opn) \<rparr>)"
    by (rule Await.IH) simp_all
  with step show ?case by (simp add: exec_Cons replicate_append_same)
qed

lemma drain_is_run: "\<exists>n. drain s = exec (replicate n (Resume 0)) s"
proof (induction s rule: drain.induct)
  case (1 w q)
  show ?case
  proof (cases "loops q")
    case Nil
    then have "drain (w, q) = exec (replicate 0 (Resume 0)) (w, q)"
      by (simp add: drain.simps exec_Nil)
    then show ?thesis by blast
  next
    case (Cons l ls)
    show ?thesis
    proof (cases l)
      case (Awaiting opn p)
      obtain r w1 where f: "finish p w = (r, w1)" by (cases "finish p w")
      let ?q1 = "q\<lparr> loops := Awaiting opn (Settled r) # ls, ran := ran q @ replicate (turns p w) (op_id opn) \<rparr>"
      from "1.IH"(1)[OF Cons Awaiting f[symmetric]]
      obtain n where n: "drain (resume 0 (w1, ?q1)) = exec (replicate n (Resume 0)) (resume 0 (w1, ?q1))"
        by blast
      have ff: "exec (replicate (turns p w) (Resume 0)) (w, q) = (w1, ?q1)"
        using fast_forward[of q opn p ls w] Cons Awaiting f by simp
      have "drain (w, q) = drain (resume 0 (w1, ?q1))"
        using Cons Awaiting f by (simp add: drain.simps)
      also have "\<dots> = exec (replicate n (Resume 0)) (exec [Resume 0] (w1, ?q1))"
        using n by (simp add: exec_Cons exec_Nil)
      also have "\<dots> = exec (replicate n (Resume 0)) (exec [Resume 0] (exec (replicate (turns p w) (Resume 0)) (w, q)))"
        by (simp only: ff)
      also have "\<dots> = exec (replicate (turns p w) (Resume 0) @ [Resume 0] @ replicate n (Resume 0)) (w, q)"
        by (simp only: exec_append)
      also have "replicate (turns p w) (Resume 0) @ [Resume 0] @ replicate n (Resume 0)
                 = replicate (turns p w + 1 + n) (Resume 0 :: ('a world_scheme, 'b) event)"
        by (simp add: replicate_add replicate_append_same)
      finally show ?thesis by blast
    next
      case Resuming
      from "1.IH"(2)[OF Cons Resuming]
      obtain n where n: "drain (resume 0 (w, q)) = exec (replicate n (Resume 0)) (resume 0 (w, q))"
        by blast
      have "drain (w, q) = drain (resume 0 (w, q))"
        using Cons Resuming by (simp add: drain.simps)
      also have "\<dots> = exec (replicate (Suc n) (Resume 0)) (w, q)"
        using n by (simp add: exec_Cons)
      finally show ?thesis by blast
    qed
  qed
qed

lemma drain_idle: "loops (snd (drain s)) = []"
proof (induction s rule: drain.induct)
  case (1 w q)
  show ?case
  proof (cases "loops q")
    case Nil
    then show ?thesis by (simp add: drain.simps)
  next
    case (Cons l ls)
    show ?thesis
    proof (cases l)
      case (Awaiting opn p)
      obtain r w1 where f: "finish p w = (r, w1)" by (cases "finish p w")
      from "1.IH"(1)[OF Cons Awaiting f[symmetric]] Cons Awaiting f
      show ?thesis by (simp add: drain.simps)
    next
      case Resuming
      from "1.IH"(2)[OF Cons Resuming] Cons Resuming
      show ?thesis by (simp add: drain.simps)
    qed
  qed
qed

lemma issued_resume: "issued (snd (resume i (w, q))) = issued q"
  by (auto simp: resume_def next_turn_def updateQueueDepth_def Let_def
      split: loop_state.splits pending.splits list.splits prod.splits)

lemma issued_exec_resume: "issued (snd (exec (replicate n (Resume i)) s)) = issued (snd s)"
proof (induction n arbitrary: s)
  case 0
  then show ?case by (simp add: exec_Nil)
next
  case (Suc n)
  then show ?case by (cases s) (simp add: exec_Cons issued_resume)
qed

lemma drain_settles:
  assumes "queue_inv (snd s)"
  shows "loops (snd (drain s)) = [] \<and> queue (snd (drain s)) = [] \<and> \<not> processing (snd (drain s))
       \<and> map fst (promises (snd (drain s))) = [0..<issued (snd s)]"
proof -
  obtain n where n: "drain s = exec (replicate n (Resume 0)) s"
    using drain_is_run by blast
  with assms have inv: "queue_inv (snd (drain s))" by (simp add: queue_inv_exec)
  have iss: "issued (snd (drain s)) = issued (snd s)" using n by (simp add: issued_exec_resume)
  from inv drain_idle[of s] iss show ?thesis
    by (auto simp: queue_inv_def executing_def)
qed


text \<open>A run of the queue and the operations taken in turn: every event leaves the
  outcome of the run as it was, a call of \<^verbatim>\<open>enqueue\<close> apart, which moves its
  operation from those still to come into the queue.\<close>

lemma issued_enqueue: "issued (snd (enqueue opn (w, q))) = Suc (issued q)"
  by (auto simp: enqueue_def processQueue_def next_turn_def updateQueueDepth_def Let_def
      split: list.splits prod.splits)

lemma outcome_enqueue:
  assumes "queue_inv q"
  shows "outcome (enqueue opn (w, q)) later = outcome (w, q) (opn # later)"
proof (cases "loops q")
  case Nil
  with assms have q: "queue q = []" "\<not> processing q" by (auto simp: queue_inv_def)
  show ?thesis
    using Nil q
    by (auto simp: outcome_def ahead_def enqueue_def processQueue_def next_turn_def
        updateQueueDepth_def run_async_def Let_def split: prod.splits)
next
  case (Cons l ls)
  with assms have q: "processing q" by (auto simp: queue_inv_def)
  show ?thesis
    using Cons q
    by (cases l)
       (auto simp: outcome_def ahead_def enqueue_def processQueue_def updateQueueDepth_def Let_def
          split: prod.splits)
qed

lemma outcome_resume:
  assumes "queue_inv q"
  shows "outcome (resume i (w, q)) later = outcome (w, q) later"
proof (cases "i < length (loops q)")
  case False
  then show ?thesis by (simp add: resume_def)
next
  case True
  with assms obtain l where l: "loops q = [l]" "i = 0"
    by (cases "loops q") (auto simp: queue_inv_def)
  show ?thesis
  proof (cases l)
    case (Awaiting e p)
    show ?thesis
    proof (cases p)
      case (Settled r)
      with l Awaiting show ?thesis
        by (auto simp: outcome_def ahead_def resume_def split: prod.splits)
    next
      case (Await f k)
      with l Awaiting show ?thesis
        by (auto simp: outcome_def ahead_def resume_def split: prod.splits)
    qed
  next
    case Resuming
    show ?thesis
    proof (cases "queue q")
      case Nil
      with l Resuming show ?thesis
        by (auto simp: outcome_def ahead_def resume_def next_turn_def split: prod.splits)
    next
      case (Cons e es)
      with l Resuming show ?thesis
        by (auto simp: outcome_def ahead_def resume_def next_turn_def updateQueueDepth_def
            run_async_def Let_def split: prod.splits)
    qed
  qed
qed

lemma outcome_exec:
  "queue_inv (snd s) \<Longrightarrow> outcome (exec evs s) later = outcome s (enqueued evs @ later)"
proof (induction evs arbitrary: s)
  case Nil
  then show ?case by (simp add: exec_Nil)
next
  case (Cons ev evs)
  obtain w q where s: "s = (w, q)" by (cases s)
  have inv: "queue_inv (snd (fire ev s))" using Cons.prems by (rule queue_inv_fire)
  have "outcome (exec (ev # evs) s) later = outcome (fire ev s) (enqueued evs @ later)"
    unfolding exec_Cons by (rule Cons.IH[OF inv])
  also have "\<dots> = outcome s (enqueued (ev # evs) @ later)"
    using Cons.prems s by (cases ev) (simp_all add: outcome_enqueue outcome_resume)
  finally show ?case .
qed

lemma outcome_new: "outcome (w, new_queue) ops = in_turn ops w"
  by (simp add: outcome_def ahead_def new_queue_def)

lemma outcome_drain:
  assumes "queue_inv (snd s)"
  shows "outcome (drain s) [] = outcome s []"
proof -
  from drain_is_run[of s] obtain n where "drain s = exec (replicate n (Resume 0)) s" by blast
  moreover have "enqueued (replicate n (Resume 0) :: ('a world_scheme, 'b) event list) = []"
    by (induction n) simp_all
  ultimately show ?thesis using outcome_exec[OF assms, of "replicate n (Resume 0)" "[]"] by simp
qed

lemma outcome_idle:
  "loops (snd s) = [] \<Longrightarrow> queue (snd s) = [] \<Longrightarrow> outcome s [] = (map snd (promises (snd s)), fst s)"
  by (cases s) (simp add: outcome_def ahead_def)

lemma length_in_turn: "length (fst (in_turn ops w)) = length ops"
proof (induction ops arbitrary: w)
  case Nil
  then show ?case by simp
next
  case (Cons opn ops)
  obtain r w1 where a: "run_async opn w = (r, w1)" by (cases "run_async opn w")
  obtain rs w2 where b: "in_turn ops w1 = (rs, w2)" by (cases "in_turn ops w1")
  from Cons.IH[of w1] b have "length rs = length ops" by simp
  with a b show ?case by simp
qed

lemma in_turn_append:
  "in_turn (xs @ ys) w =
     (case in_turn xs w of (rs, w1) \<Rightarrow> (case in_turn ys w1 of (rs', w2) \<Rightarrow> (rs @ rs', w2)))"
  by (induction xs arbitrary: w) (auto split: prod.splits)

lemma enqueued_append: "enqueued (xs @ ys) = enqueued xs @ enqueued ys"
  by (induction xs rule: enqueued.induct) simp_all

lemma issued_exec:
  "issued (snd (exec evs s)) = issued (snd s) + length (enqueued evs)"
proof (induction evs arbitrary: s)
  case Nil
  then show ?case by (simp add: exec_Nil)
next
  case (Cons ev evs)
  obtain w q where s: "s = (w, q)" by (cases s)
  show ?case
    unfolding exec_Cons Cons.IH
    by (cases ev) (simp_all add: s issued_enqueue issued_resume)
qed

lemma upt_prefix: "xs @ ys = [0..<n] \<Longrightarrow> xs = [0..<length xs]"
  by (metis add_diff_cancel_left' append_eq_conv_conj diff_zero length_upt take_upt zero_le le_add1 length_append plus_nat.add_0)

lemma settled_so_far:
  fixes w :: "'x world_scheme" and evs :: "('x world_scheme, 'a) event list"
  defines "q \<equiv> snd (exec evs (w, new_queue))"
  shows "promises q = zip [0..<length (promises q)] (take (length (promises q)) (fst (in_turn (enqueued evs) w)))"
proof -
  have inv: "queue_inv q" unfolding q_def by (rule queue_inv_exec) (simp add: queue_inv_new)
  then have "map fst (promises q) @ executing q @ map op_id (queue q) = [0..<issued q]"
    by (simp add: queue_inv_def)
  then have f: "map fst (promises q) = [0..<length (promises q)]"
    using upt_prefix[of "map fst (promises q)"] by simp
  have "outcome (exec evs (w, new_queue)) [] = in_turn (enqueued evs) w"
    using outcome_exec[of "(w, new_queue)" evs "[]"] by (simp add: queue_inv_new outcome_new)
  then have "map snd (promises q) @ fst (ahead (exec evs (w, new_queue)) []) = fst (in_turn (enqueued evs) w)"
    unfolding outcome_def q_def by (metis fst_conv)
  then have s: "map snd (promises q) = take (length (promises q)) (fst (in_turn (enqueued evs) w))"
    by (metis append_eq_conv_conj length_map)
  have "promises q = zip (map fst (promises q)) (map snd (promises q))" by (simp add: zip_map_fst_snd)
  with f s show ?thesis by simp
qed

lemma drained:
  fixes w :: "'x world_scheme" and evs :: "('x world_scheme, 'a) event list"
  shows "promises (snd (drain (exec evs (w, new_queue)))) = zip [0..<length (enqueued evs)] (fst (in_turn (enqueued evs) w))"
    and "fst (drain (exec evs (w, new_queue))) = snd (in_turn (enqueued evs) w)"
proof -
  let ?s = "exec evs (w, new_queue)"
  have inv: "queue_inv (snd ?s)" by (rule queue_inv_exec) (simp add: queue_inv_new)
  from drain_settles[OF inv] have d: "loops (snd (drain ?s)) = []" "queue (snd (drain ?s)) = []"
    "map fst (promises (snd (drain ?s))) = [0..<issued (snd ?s)]" by simp_all
  have "outcome (drain ?s) [] = in_turn (enqueued evs) w"
    using outcome_drain[OF inv] outcome_exec[of "(w, new_queue)" evs "[]"]
    by (simp add: queue_inv_new outcome_new)
  with outcome_idle[OF d(1,2)] have o: "map snd (promises (snd (drain ?s))) = fst (in_turn (enqueued evs) w)"
    "fst (drain ?s) = snd (in_turn (enqueued evs) w)"
    by (simp_all add: prod_eq_iff)
  show "fst (drain ?s) = snd (in_turn (enqueued evs) w)" by (rule o(2))
  have i: "issued (snd ?s) = length (enqueued evs)" by (simp add: issued_exec new_queue_def)
  have "promises (snd (drain ?s)) = zip (map fst (promises (snd (drain ?s)))) (map snd (promises (snd (drain ?s))))"
    by (simp add: zip_map_fst_snd)
  with d(3) o(1) i show "promises (snd (drain ?s)) = zip [0..<length (enqueued evs)] (fst (in_turn (enqueued evs) w))"
    by simp
qed

lemma map_of_zip_upt:
  "map_of (zip [0..<m] xs) k = (if k < m \<and> k < length xs then Some (xs ! k) else None)"
proof (cases "k < m \<and> k < length xs")
  case True
  let ?l = "min m (length xs)"
  have z: "zip [0..<m] xs = zip [0..<?l] (take ?l xs)"
    by (simp add: list_eq_iff_nth_eq)
  from True have k: "k < ?l" by simp
  have "map_of (zip [0..<?l] (take ?l xs)) ([0..<?l] ! k) = Some (take ?l xs ! k)"
    by (rule map_of_zip_nth) (use k in simp_all)
  with k z show ?thesis using True by simp
next
  case False
  have "k \<notin> fst ` set (zip [0..<m] xs)"
    using False by (auto simp: set_zip)
  then have "map_of (zip [0..<m] xs) k = None" by (simp add: map_of_eq_None_iff)
  with False show ?thesis by simp
qed

lemma in_turn_snoc:
  "in_turn (ops @ [f]) w =
     (fst (in_turn ops w) @ [fst (run_async f (snd (in_turn ops w)))],
      snd (run_async f (snd (in_turn ops w))))"
  by (simp add: in_turn_append split: prod.splits)

lemma in_turn_nth:
  "fst (in_turn (ops @ f # ops') w) ! length ops = fst (run_async f (snd (in_turn ops w)))"
proof -
  have "fst (in_turn (ops @ f # ops') w)
      = fst (in_turn ops w) @ fst (in_turn (f # ops') (snd (in_turn ops w)))"
    by (simp add: in_turn_append split: prod.splits)
  moreover have "fst (in_turn (f # ops') v) ! 0 = fst (run_async f v)" for v
    by (simp split: prod.splits)
  ultimately show ?thesis
    by (simp add: nth_append length_in_turn)
qed


lemma zip_upt_take: "zip [0..<k] (take k xs) = zip [0..<k] xs"
  by (simp add: list_eq_iff_nth_eq)



section \<open>Properties of the retry loop\<close>


lemma finish_suspended: "finish (suspended f) w = run_async f w"
  by (simp add: suspended_def run_async_def case_prod_beta)

lemma finish_then: "finish (then_p p k) w = (case finish p w of (r, w1) \<Rightarrow> run_async (k r) w1)"
  by (induction p arbitrary: w) (simp_all add: finish_suspended)

lemma run_promised: "run_async (promised body) w = body w"
  by (simp add: run_async_def promised_def)

lemma retry_unroll:
  "run_async (retry_from cfg opn maxR st a le) w =
     (if a \<le> maxR then
        (case run_async opn w of
           (Inr result, w2) \<Rightarrow> (Inr result, recordOperation cfg True (now w2 - st) w2)
         | (Inl error, w2) \<Rightarrow>
             run_async (retry_from cfg opn maxR st (a + 1) (Some error))
               (after_failure cfg maxR a (Inl error) w2))
      else (Inl (JsError ''Error'' (failure_text maxR le)), recordOperation cfg False (now w - st) w))"
proof (cases "a \<le> maxR")
  case False
  then show ?thesis
    by (subst run_async_def, subst retry_from.simps) simp
next
  case True
  obtain w1 p where o: "opn w = (w1, p)" by (cases "opn w")
  obtain r w2 where f: "finish p w1 = (r, w2)" by (cases "finish p w1")
  have ro: "run_async opn w = (r, w2)" using o f by (simp add: run_async_def)
  show ?thesis
  proof (cases r)
    case (Inr result)
    with True o f ro show ?thesis
      by (subst run_async_def, subst retry_from.simps)
         (simp add: finish_then run_async_def)
  next
    case (Inl error)
    with True o f ro show ?thesis
      by (subst run_async_def, subst retry_from.simps)
         (auto simp: finish_then run_async_def after_failure_def Let_def finish_suspended)
  qed
qed


lemma executing_le_loops: "length (executing q) \<le> length (loops q)"
proof -
  have "length (concat (map executing_of ls)) \<le> length ls" for ls :: "('a, 'b) loop_state list"
  proof (induction ls)
    case Nil
    then show ?case by simp
  next
    case (Cons l ls)
    then show ?case by (cases l) simp_all
  qed
  then show ?thesis by (simp add: executing_def)
qed

text \<open>
  Claim C7. Whatever calls of \<^verbatim>\<open>enqueue\<close> and turns of the event loop a new queue
  has seen: every call has been given a promise (\<open>issued\<close> counts the calls); at most
  one enqueued operation is executing; the operations, numbered in the order of their
  enqueueing, are the settled ones, then the executing one, then the waiting ones, so
  they start and settle in that order, and they took their turns in that order
  (\<open>ran\<close> is sorted); the promises settled so far hold the outcomes that the
  operations have when they are run one after the other, each to its settlement before
  the next is called. And a rejection halts nothing: left to itself the event loop
  (\<open>drain\<close>, which is a run of \<open>Resume 0\<close>) settles the promise of every
  operation that was enqueued with that operation's outcome, whether operations before
  it rejected or not, leaves the world as the operations leave it one after the other,
  and leaves the queue empty.
\<close>

theorem write_queue_single_flight_fifo:
  fixes w :: "'x world_scheme" and evs :: "('x world_scheme, 'a) event list"
  shows "issued (snd (exec evs (w, new_queue))) = length (enqueued evs)
       \<and> length (executing (snd (exec evs (w, new_queue)))) \<le> 1
       \<and> map fst (promises (snd (exec evs (w, new_queue))))
           @ executing (snd (exec evs (w, new_queue)))
           @ map op_id (queue (snd (exec evs (w, new_queue))))
          = [0..<length (enqueued evs)]
       \<and> sorted (ran (snd (exec evs (w, new_queue))))
       \<and> promises (snd (exec evs (w, new_queue)))
          = zip [0..<length (promises (snd (exec evs (w, new_queue))))] (fst (in_turn (enqueued evs) w))
       \<and> (\<exists>n. drain (exec evs (w, new_queue)) = exec (replicate n (Resume 0)) (exec evs (w, new_queue)))
       \<and> promises (snd (drain (exec evs (w, new_queue))))
          = zip [0..<length (enqueued evs)] (fst (in_turn (enqueued evs) w))
       \<and> fst (drain (exec evs (w, new_queue))) = snd (in_turn (enqueued evs) w)
       \<and> executing (snd (drain (exec evs (w, new_queue)))) = []
       \<and> queue (snd (drain (exec evs (w, new_queue)))) = []"
proof -
  let ?s = "exec evs (w, new_queue)"
  have i: "issued (snd ?s) = length (enqueued evs)" by (simp add: issued_exec new_queue_def)
  have inv: "queue_inv (snd ?s)"
    by (rule queue_inv_exec) (simp add: queue_inv_new)
  then have "length (loops (snd ?s)) \<le> 1" by (simp add: queue_inv_def)
  with executing_le_loops[of "snd ?s"] have one: "length (executing (snd ?s)) \<le> 1" by simp
  from inv have fifo: "map fst (promises (snd ?s)) @ executing (snd ?s) @ map op_id (queue (snd ?s))
      = [0..<length (enqueued evs)]" and srt: "sorted (ran (snd ?s))"
    by (simp_all add: queue_inv_def i)
  have far: "promises (snd ?s) = zip [0..<length (promises (snd ?s))] (fst (in_turn (enqueued evs) w))"
    using settled_so_far[of evs w] by (simp only: zip_upt_take)
  from drain_settles[OF inv] have d: "executing (snd (drain ?s)) = []" "queue (snd (drain ?s)) = []"
    by (simp_all add: executing_def)
  have run: "\<exists>n. drain ?s = exec (replicate n (Resume 0)) ?s" by (rule drain_is_run)
  note dr = drained[of evs w]
  show ?thesis
    apply (intro conjI)
             apply (rule i)
            apply (rule one)
           apply (rule fifo)
          apply (rule srt)
         apply (rule far)
        apply (rule run)
       apply (rule dr(1))
      apply (rule dr(2))
     apply (rule d(1))
    apply (rule d(2))
    done
qed

text \<open>A run of two callers: the first caller's retry loop rejects after three attempts
  (waits of 10 and 20 ms), the second caller calls while the first loop is under way,
  and its loop resolves at its first attempt.\<close>

theorem write_queue_single_flight_fifo_witness:
  "issued (snd (exec [first_caller, Resume 0, Resume 0, Resume 0, second_caller, Resume 0] (world0, new_queue))) = 2
   \<and> promises (snd (drain (exec [first_caller, Resume 0, Resume 0, Resume 0, second_caller, Resume 0] (world0, new_queue))))
     = [(0, Inl (JsError ''Error'' ''Operation failed after 3 attempts: Unknown error'')), (1, Inr 7)]
   \<and> console (fst (drain (exec [first_caller, Resume 0, Resume 0, Resume 0, second_caller, Resume 0] (world0, new_queue))))
     = [''called'', ''called'', ''called'', ''called'']
   \<and> timers (fst (drain (exec [first_caller, Resume 0, Resume 0, Resume 0, second_caller, Resume 0] (world0, new_queue))))
     = [10, 20]"
proof -
  let ?run = "[first_caller, Resume 0, Resume 0, Resume 0, second_caller, Resume 0]"
  note t = write_queue_single_flight_fifo[of ?run world0]
  from t have i: "issued (snd (exec ?run (world0, new_queue))) = length (enqueued ?run)" by blast
  from t have p: "promises (snd (drain (exec ?run (world0, new_queue))))
      = zip [0..<length (enqueued ?run)] (fst (in_turn (enqueued ?run) world0))" by blast
  from t have w: "fst (drain (exec ?run (world0, new_queue))) = snd (in_turn (enqueued ?run) world0)" by blast
  have e: "length (enqueued ?run) = 2"
    "fst (in_turn (enqueued ?run) world0)
       = [Inl (JsError ''Error'' ''Operation failed after 3 attempts: Unknown error''), Inr 7]"
    "console (snd (in_turn (enqueued ?run) world0)) = [''called'', ''called'', ''called'', ''called'']"
    "timers (snd (in_turn (enqueued ?run) world0)) = [10, 20]"
    by code_simp+
  show ?thesis unfolding i p w e by (simp add: upt_rec)
qed

text \<open>
  Claim C9, as amended. \<^verbatim>\<open>getQueueDepth()\<close> is the number of operations that have
  not yet started: \<^verbatim>\<open>processQueue\<close> shifts an operation off the queue before it
  calls it, so the operation in flight is not counted. In every state of a queue the
  depth is the number of operations enqueued less the settled ones and less the
  executing one.
\<close>
theorem getQueueDepth_counts_waiting_only:
  fixes w :: "'x world_scheme" and evs :: "('x world_scheme, 'a) event list"
  shows "getQueueDepth (snd (exec evs (w, new_queue)))
           = issued (snd (exec evs (w, new_queue)))
             - length (promises (snd (exec evs (w, new_queue))))
             - length (executing (snd (exec evs (w, new_queue))))
       \<and> getQueueDepth (snd (exec evs (w, new_queue))) = length (queue (snd (exec evs (w, new_queue))))"
proof -
  let ?q = "snd (exec evs (w, new_queue))"
  have inv: "queue_inv ?q"
    by (rule queue_inv_exec) (simp add: queue_inv_new)
  then have "map fst (promises ?q) @ executing ?q @ map op_id (queue ?q) = [0..<issued ?q]"
    by (simp only: queue_inv_def)
  then have "length (map fst (promises ?q) @ executing ?q @ map op_id (queue ?q)) = length [0..<issued ?q]"
    by (rule arg_cong)
  then have "length (promises ?q) + length (executing ?q) + length (queue ?q) = issued ?q"
    by (simp only: length_append length_map length_upt diff_zero add.assoc)
  then have "length (queue ?q) = issued ?q - length (promises ?q) - length (executing ?q)"
    by arith
  then show ?thesis by (simp only: getQueueDepth_def simp_thms)
qed


text \<open>The claim as stated fails: with one operation executing and two waiting the
  depth is 2, not 3.\<close>

theorem getQueueDepth_counterexample:
  "length (executing (snd (exec [Enqueue noop, Enqueue noop, Enqueue noop] (world0, new_queue)))) = 1
   \<and> length (queue (snd (exec [Enqueue noop, Enqueue noop, Enqueue noop] (world0, new_queue)))) = 2
   \<and> getQueueDepth (snd (exec [Enqueue noop, Enqueue noop, Enqueue noop] (world0, new_queue))) = 2
   \<and> getQueueDepth (snd (exec [Enqueue noop, Enqueue noop, Enqueue noop] (world0, new_queue)))
       \<noteq> length (executing (snd (exec [Enqueue noop, Enqueue noop, Enqueue noop] (world0, new_queue))))
         + length (queue (snd (exec [Enqueue noop, Enqueue noop, Enqueue noop] (world0, new_queue))))"
  by (simp add: exec_def enqueue_def processQueue_def next_turn_def updateQueueDepth_def Let_def
      new_queue_def world0_def noop_def promised_def executing_def getQueueDepth_def)



lemma retry_success:
  fixes opn :: "('x world_scheme, 'r) async"
  assumes "a + int j \<le> maxR"
    and "\<forall>i<j. isl (fst (run_async opn (before_attempt cfg opn maxR a i v)))"
    and "run_async opn (before_attempt cfg opn maxR a j v) = (Inr result, w')"
  shows "run_async (retry_from cfg opn maxR st a le) v
           = (Inr result, recordOperation cfg True (now w' - st) w')"
  using assms
proof (induction j arbitrary: a v le)
  case 0
  then show ?case by (subst retry_unroll) simp
next
  case (Suc j)
  from Suc.prems(2) have "isl (fst (run_async opn (before_attempt cfg opn maxR a 0 v)))"
    by blast
  then obtain e w2 where f: "run_async opn v = (Inl e, w2)"
    by (cases "run_async opn v"; cases "fst (run_async opn v)") auto
  let ?v = "after_failure cfg maxR a (Inl e :: js_error + 'r) w2"
  have nxt: "before_attempt cfg opn maxR a (Suc i) v = before_attempt cfg opn maxR (a + 1) i ?v" for i
    using f by simp
  have "run_async (retry_from cfg opn maxR st (a + 1) (Some e)) ?v
          = (Inr result, recordOperation cfg True (now w' - st) w')"
  proof (rule Suc.IH)
    show "a + 1 + int j \<le> maxR" using Suc.prems(1) by simp
    show "\<forall>i<j. isl (fst (run_async opn (before_attempt cfg opn maxR (a + 1) i ?v)))"
      using Suc.prems(2) nxt by (metis Suc_less_eq)
    show "run_async opn (before_attempt cfg opn maxR (a + 1) j ?v) = (Inr result, w')"
      using Suc.prems(3) nxt by simp
  qed
  moreover have "a \<le> maxR" using Suc.prems(1) by simp
  ultimately show ?case using f by (subst retry_unroll) simp
qed

lemma retry_exhausted:
  fixes opn :: "('x world_scheme, 'r) async"
  assumes "n = nat (maxR + 1 - a)"
    and "\<forall>i<n. isl (fst (run_async opn (before_attempt cfg opn maxR a i v)))"
  shows "run_async (retry_from cfg opn maxR st a le) v
           = (Inl (JsError ''Error'' (failure_text maxR
                 (if n = 0 then le
                  else Some (projl (fst (run_async opn (before_attempt cfg opn maxR a (n - 1) v))))))),
              recordOperation cfg False (now (before_attempt cfg opn maxR a n v) - st)
                (before_attempt cfg opn maxR a n v))"
  using assms
proof (induction n arbitrary: a v le)
  case 0
  then have "\<not> a \<le> maxR" by simp
  then show ?case by (subst retry_unroll) simp
next
  case (Suc n)
  from Suc.prems(1) have a: "a \<le> maxR" and n: "n = nat (maxR + 1 - (a + 1))" by simp_all
  from Suc.prems(2) have "isl (fst (run_async opn (before_attempt cfg opn maxR a 0 v)))"
    by blast
  then obtain e w2 where f: "run_async opn v = (Inl e, w2)"
    by (cases "run_async opn v"; cases "fst (run_async opn v)") auto
  let ?v = "after_failure cfg maxR a (Inl e :: js_error + 'r) w2"
  have nxt: "before_attempt cfg opn maxR a (Suc i) v = before_attempt cfg opn maxR (a + 1) i ?v" for i
    using f by simp
  have fails: "\<forall>i<n. isl (fst (run_async opn (before_attempt cfg opn maxR (a + 1) i ?v)))"
    using Suc.prems(2) nxt by (metis Suc_less_eq)
  note IH = Suc.IH[OF n fails, of "Some e"]
  have last: "(if n = 0 then Some e
               else Some (projl (fst (run_async opn (before_attempt cfg opn maxR (a + 1) (n - 1) ?v)))))
             = Some (projl (fst (run_async opn (before_attempt cfg opn maxR a (Suc n - 1) v))))"
  proof (cases n)
    case 0
    then show ?thesis using f by simp
  next
    case (Suc m)
    then show ?thesis using nxt[of m] by simp
  qed
  show ?case
    using a f IH last nxt[of n] by (subst retry_unroll) simp
qed

lemma timers_recordOperation [simp]: "timers (recordOperation cfg b l w) = timers w"
  by (simp add: recordOperation_def)

lemma console_recordOperation [simp]: "console (recordOperation cfg b l w) = console w"
  by (simp add: recordOperation_def)

lemma before_attempt_timers:
  assumes quiet: "\<forall>v. timers (snd (run_async opn v)) = timers v"
    and "a + int j \<le> maxR"
  shows "timers (before_attempt cfg opn maxR a j w)
           = timers w @ map (\<lambda>i. min (baseDelayMs cfg * 2 ^ nat (a + int i - 1)) (maxDelayMs cfg)) [0..<j]"
  using assms(2)
proof (induction j arbitrary: a w)
  case 0
  then show ?case by simp
next
  case (Suc j)
  let ?v = "after_failure cfg maxR a (fst (run_async opn w)) (snd (run_async opn w))"
  have tv: "timers ?v = timers w @ [min (baseDelayMs cfg * 2 ^ nat (a - 1)) (maxDelayMs cfg)]"
    using Suc.prems quiet
    by (simp add: after_failure_def delay_def console_out_def calculateBackoffDelay_def Let_def)
  have "timers (before_attempt cfg opn maxR (a + 1) j ?v)
          = timers ?v @ map (\<lambda>i. min (baseDelayMs cfg * 2 ^ nat (a + 1 + int i - 1)) (maxDelayMs cfg)) [0..<j]"
    by (rule Suc.IH) (use Suc.prems in simp)
  also have "map (\<lambda>i. min (baseDelayMs cfg * 2 ^ nat (a + 1 + int i - 1)) (maxDelayMs cfg)) [0..<j]
             = map (\<lambda>i. min (baseDelayMs cfg * 2 ^ nat (a + int i - 1)) (maxDelayMs cfg)) (map Suc [0..<j])"
    by (simp add: comp_def add.commute add.left_commute)
  finally show ?case
    using tv by (simp add: upt_conv_Cons map_Suc_upt del: upt_Suc)
qed



lemma retry_console_bound:
  fixes opn :: "('x world_scheme, 'r) async"
  assumes one: "\<forall>v. length (console (snd (run_async opn v))) = Suc (length (console v))"
    and quiet: "\<not> logOperations cfg"
    and n: "n = nat (maxR + 1 - a)"
  shows "length (console (snd (run_async (retry_from cfg opn maxR st a le) v))) \<le> length (console v) + n"
  using n
proof (induction n arbitrary: a v le)
  case 0
  then have "\<not> a \<le> maxR" by simp
  then show ?case by (subst retry_unroll) simp
next
  case (Suc n)
  from Suc.prems have a: "a \<le> maxR" and n: "n = nat (maxR + 1 - (a + 1))" by simp_all
  obtain r w2 where f: "run_async opn v = (r, w2)" by (cases "run_async opn v")
  with one have c2: "length (console w2) = Suc (length (console v))" by (metis snd_conv)
  show ?case
  proof (cases r)
    case (Inr result)
    with a f c2 show ?thesis by (subst retry_unroll) simp
  next
    case (Inl e)
    let ?v = "after_failure cfg maxR a (Inl e :: js_error + 'r) w2"
    have "console ?v = console w2"
      using quiet by (simp add: after_failure_def delay_def)
    with Suc.IH[OF n, of "Some e" ?v] c2
    have "length (console (snd (run_async (retry_from cfg opn maxR st (a + 1) (Some e)) ?v)))
            \<le> length (console v) + Suc n" by simp
    with a f Inl show ?thesis by (subst retry_unroll) simp
  qed
qed

lemma run_executeWithRetry:
  "run_async (executeWithRetry cfg opn maxR) w = run_async (retry_from cfg opn maxR (now w) 1 None) w"
  by (simp add: run_async_def executeWithRetry_def)

text \<open>
  Claim C5, as amended. \<^verbatim>\<open>executeWithRetry(op, maxRetries)\<close> resolves with the result
  of the first attempt that succeeds, provided it is one of the first \<open>maxRetries\<close>;
  when each of the \<open>maxRetries\<close> attempts fails it rejects with an \<^verbatim>\<open>Error\<close> whose
  message is \<^verbatim>\<open>Operation failed after N attempts: <cause>\<close>, \<open>N\<close> being
  \<open>maxRetries\<close> and the cause the message of the last failure, or
  \<^verbatim>\<open>Unknown error\<close> when that message is empty or missing or no attempt was made;
  between attempt \<open>i + 1\<close> and the next it waits \<open>min (baseDelay * 2 ^ i) maxDelay\<close>
  (the timers set before attempt \<open>j + 1\<close>, for an operation that sets none itself);
  and it calls the operation at most \<open>maxRetries\<close> times (an operation that leaves one
  line on the console per call leaves at most that many).
\<close>

theorem executeWithRetry_behaviour:
  fixes opn :: "('x world_scheme, 'r) async"
  shows
   "(int j < maxR \<and> (\<forall>i<j. isl (fst (run_async opn (before_attempt cfg opn maxR 1 i w))))
       \<and> run_async opn (before_attempt cfg opn maxR 1 j w) = (Inr result, w')
     \<longrightarrow> run_async (executeWithRetry cfg opn maxR) w
           = (Inr result, recordOperation cfg True (now w' - now w) w'))
  \<and> ((\<forall>i<nat maxR. isl (fst (run_async opn (before_attempt cfg opn maxR 1 i w))))
     \<longrightarrow> run_async (executeWithRetry cfg opn maxR) w
           = (Inl (JsError ''Error''
                 (''Operation failed after '' @ toString 10 maxR @ '' attempts: ''
                  @ cause_of (if maxR < 1 then None
                              else Some (projl (fst (run_async opn
                                     (before_attempt cfg opn maxR 1 (nat maxR - 1) w))))))),
              recordOperation cfg False (now (before_attempt cfg opn maxR 1 (nat maxR) w) - now w)
                (before_attempt cfg opn maxR 1 (nat maxR) w)))
  \<and> ((\<forall>v. timers (snd (run_async opn v)) = timers v) \<and> int j < maxR
     \<longrightarrow> timers (before_attempt cfg opn maxR 1 j w)
           = timers w @ map (\<lambda>i. min (baseDelayMs cfg * 2 ^ i) (maxDelayMs cfg)) [0..<j])
  \<and> ((\<forall>v. length (console (snd (run_async opn v))) = Suc (length (console v))) \<and> \<not> logOperations cfg
     \<longrightarrow> length (console (snd (run_async (executeWithRetry cfg opn maxR) w)))
           \<le> length (console w) + nat maxR)"
proof (intro conjI impI)
  assume h: "int j < maxR \<and> (\<forall>i<j. isl (fst (run_async opn (before_attempt cfg opn maxR 1 i w))))
       \<and> run_async opn (before_attempt cfg opn maxR 1 j w) = (Inr result, w')"
  then have "1 + int j \<le> maxR" by simp
  with h show "run_async (executeWithRetry cfg opn maxR) w
           = (Inr result, recordOperation cfg True (now w' - now w) w')"
    unfolding run_executeWithRetry by (intro retry_success[where j = j]) simp_all
next
  assume h: "\<forall>i<nat maxR. isl (fst (run_async opn (before_attempt cfg opn maxR 1 i w)))"
  have n: "nat maxR = nat (maxR + 1 - 1)" by simp
  have c: "(nat maxR = 0) = (maxR < 1)" by auto
  show "run_async (executeWithRetry cfg opn maxR) w
           = (Inl (JsError ''Error''
                 (''Operation failed after '' @ toString 10 maxR @ '' attempts: ''
                  @ cause_of (if maxR < 1 then None
                              else Some (projl (fst (run_async opn
                                     (before_attempt cfg opn maxR 1 (nat maxR - 1) w))))))),
              recordOperation cfg False (now (before_attempt cfg opn maxR 1 (nat maxR) w) - now w)
                (before_attempt cfg opn maxR 1 (nat maxR) w))"
    unfolding run_executeWithRetry
    using retry_exhausted[OF n h, of "now w" None] by (simp add: failure_text_def c)
next
  assume h: "(\<forall>v. timers (snd (run_async opn v)) = timers v) \<and> int j < maxR"
  then have "1 + int j \<le> maxR" by simp
  with h before_attempt_timers[of opn 1 j maxR cfg w]
  show "timers (before_attempt cfg opn maxR 1 j w)
           = timers w @ map (\<lambda>i. min (baseDelayMs cfg * 2 ^ i) (maxDelayMs cfg)) [0..<j]"
    by simp
next
  assume h: "(\<forall>v. length (console (snd (run_async opn v))) = Suc (length (console v))) \<and> \<not> logOperations cfg"
  have n: "nat maxR = nat (maxR + 1 - 1)" by simp
  from h show "length (console (snd (run_async (executeWithRetry cfg opn maxR) w)))
           \<le> length (console w) + nat maxR"
    unfolding run_executeWithRetry
    using retry_console_bound[of opn cfg "nat maxR" maxR 1 "now w" None w] by simp
qed



lemma radix_digit: "n < b \<Longrightarrow> radix b n = [digit_char n]"
  by (subst radix.simps) simp

lemma toString_3: "toString 10 3 = ''3''"
  by (simp add: toString_def radix_digit digit_char_def)

lemma retry_done:
  "\<not> a \<le> maxR \<Longrightarrow> run_async (retry_from cfg opn maxR st a le) w
     = (Inl (JsError ''Error'' (failure_text maxR le)), recordOperation cfg False (now w - st) w)"
  by (subst retry_unroll) simp

lemma retry_ok:
  "a \<le> maxR \<Longrightarrow> \<not> isl (fst (run_async opn w)) \<Longrightarrow>
   run_async (retry_from cfg opn maxR st a le) w
     = (Inr (projr (fst (run_async opn w))),
        recordOperation cfg True (now (snd (run_async opn w)) - st) (snd (run_async opn w)))"
  by (subst retry_unroll) (auto split: prod.splits sum.splits)

lemma retry_again:
  "a \<le> maxR \<Longrightarrow> isl (fst (run_async opn w)) \<Longrightarrow>
   run_async (retry_from cfg opn maxR st a le) w
     = run_async (retry_from cfg opn maxR st (a + 1) (Some (projl (fst (run_async opn w)))))
         (after_failure cfg maxR a (fst (run_async opn w)) (snd (run_async opn w)))"
  by (subst retry_unroll) (auto split: prod.splits sum.splits)

lemmas retry_eval = run_executeWithRetry retry_done retry_ok retry_again run_promised after_failure_def
  recordOperation_def record_metrics_def calculateBackoffDelay_def delay_def console_out_def
  DEFAULT_CONCURRENCY_CONFIG_def world0_def zero_metrics_def failure_text_def cause_of_def
  truthy_str_def Let_def

text \<open>The claim as stated fails: an operation that rejects with an empty message is
  reported with the cause \<^verbatim>\<open>Unknown error\<close>, and the text of the rejection is not
  the one the claim quotes.\<close>

theorem executeWithRetry_counterexample:
  "fst (run_async (executeWithRetry DEFAULT_CONCURRENCY_CONFIG silent_failure 3) world0)
     = Inl (JsError ''Error'' ''Operation failed after 3 attempts: Unknown error'')
   \<and> fst (run_async (executeWithRetry DEFAULT_CONCURRENCY_CONFIG silent_failure 3) world0)
     \<noteq> Inl (JsError ''Error'' (claimed_failure_text 3 (the (message_of (JsError ''Error'' [])))))"
  by (simp add: retry_eval silent_failure_def toString_3 claimed_failure_text_def)

text \<open>With the default configuration: \<open>flaky\<close> succeeds at its third attempt, after
  waits of 10 and 20 ms and three calls; \<open>silent_failure\<close> is given up after three
  attempts.\<close>

theorem executeWithRetry_witness:
  "run_async (executeWithRetry DEFAULT_CONCURRENCY_CONFIG flaky 3) world0
     = (Inr 7, recordOperation DEFAULT_CONCURRENCY_CONFIG True 30
          (world0\<lparr> now := 30, console := [''called'', ''called'', ''called''], timers := [10, 20] \<rparr>))
   \<and> timers (before_attempt DEFAULT_CONCURRENCY_CONFIG flaky 3 1 2 world0) = [10, 20]
   \<and> length (console (snd (run_async (executeWithRetry DEFAULT_CONCURRENCY_CONFIG flaky 3) world0))) \<le> 3
   \<and> fst (run_async (executeWithRetry DEFAULT_CONCURRENCY_CONFIG silent_failure 3) world0)
     = Inl (JsError ''Error'' ''Operation failed after 3 attempts: Unknown error'')"
proof -
  let ?cfg = DEFAULT_CONCURRENCY_CONFIG
  have w1: "before_attempt ?cfg flaky 3 1 (Suc 0) world0
      = world0\<lparr> now := 10, console := [''called''], timers := [10] \<rparr>"
    by (simp add: run_promised flaky_def after_failure_def calculateBackoffDelay_def
        delay_def console_out_def DEFAULT_CONCURRENCY_CONFIG_def world0_def)
  have w2: "before_attempt ?cfg flaky 3 1 (Suc (Suc 0)) world0
      = world0\<lparr> now := 30, console := [''called'', ''called''], timers := [10, 20] \<rparr>"
    by (simp add: run_promised flaky_def after_failure_def calculateBackoffDelay_def
        delay_def console_out_def DEFAULT_CONCURRENCY_CONFIG_def world0_def)
  have fl: "\<forall>v. timers (snd (run_async flaky v)) = timers v"
    "\<forall>v. length (console (snd (run_async flaky v))) = Suc (length (console v))"
    by (simp_all add: run_promised flaky_def console_out_def)
  have s1: "before_attempt ?cfg silent_failure 3 1 (Suc 0) world0
      = world0\<lparr> now := 10, console := [''called''], timers := [10] \<rparr>"
    by (simp add: run_promised silent_failure_def after_failure_def calculateBackoffDelay_def
        delay_def console_out_def DEFAULT_CONCURRENCY_CONFIG_def world0_def)
  have s2: "before_attempt ?cfg silent_failure 3 1 (Suc (Suc 0)) world0
      = world0\<lparr> now := 30, console := [''called'', ''called''], timers := [10, 20] \<rparr>"
    by (simp add: run_promised silent_failure_def after_failure_def calculateBackoffDelay_def
        delay_def console_out_def DEFAULT_CONCURRENCY_CONFIG_def world0_def)
  have a: "run_async (executeWithRetry ?cfg flaky 3) world0
     = (Inr 7, recordOperation ?cfg True 30
          (world0\<lparr> now := 30, console := [''called'', ''called'', ''called''], timers := [10, 20] \<rparr>))"
    using executeWithRetry_behaviour[where j = 2 and maxR = 3 and cfg = ?cfg and w = world0
        and opn = flaky and result = 7
        and w' = "world0\<lparr> now := 30, console := [''called'', ''called'', ''called''], timers := [10, 20] \<rparr>"]
      w1 w2
    by (simp add: numeral_2_eq_2 All_less_Suc run_promised flaky_def console_out_def world0_def)
  have b: "timers (before_attempt ?cfg flaky 3 1 2 world0) = [10, 20]"
    using executeWithRetry_behaviour[where j = 2 and maxR = 3 and cfg = ?cfg and w = world0
        and opn = flaky] fl
    by (simp add: numeral_2_eq_2 DEFAULT_CONCURRENCY_CONFIG_def world0_def)
  have c: "length (console (snd (run_async (executeWithRetry ?cfg flaky 3) world0))) \<le> 3"
    using executeWithRetry_behaviour[where maxR = 3 and cfg = ?cfg and w = world0 and opn = flaky] fl
    by (simp add: DEFAULT_CONCURRENCY_CONFIG_def world0_def)
  have d: "fst (run_async (executeWithRetry ?cfg silent_failure 3) world0)
     = Inl (JsError ''Error'' ''Operation failed after 3 attempts: Unknown error'')"
    using executeWithRetry_behaviour[where maxR = 3 and cfg = ?cfg and w = world0
        and opn = silent_failure] s1 s2
    by (simp add: numeral_3_eq_3 All_less_Suc run_promised silent_failure_def cause_of_def
        truthy_str_def toString_3 world0_def)
  from a b c d show ?thesis by (intro conjI)
qed


section \<open>Properties of the atomic executor\<close>

lemma executeAtomic_idle:
  fixes opn :: "('x world_scheme, 'a) async"
  assumes "queue_inv q" "loops q = []" "opn w = (w1, p)" "finish p w1 = (r, w2)"
  shows "executeAtomic cfg opn (w, q)
     = (Some r, recordOperation cfg (\<not> isl r) (now w2 - now w) w2,
        q\<lparr> issued := Suc (issued q),
           metrics := record_metrics (\<not> isl r) (now w2 - now w) (now w2) ((metrics q)\<lparr> queueDepth := 0 \<rparr>),
           promises := promises q @ [(issued q, r)],
           ran := ran q @ replicate (Suc (turns p w1)) (issued q) \<rparr>)"
proof -
  from assms(1,2) have q: "queue q = []" "\<not> processing q" "map fst (promises q) = [0..<issued q]"
    by (auto simp: queue_inv_def executing_def)
  let ?qop = "\<lparr> op_id = issued q, operation = opn, timestamp = now w, retryCount = 0 \<rparr>"
  have e: "enqueue opn (w, q)
     = (w1, q\<lparr> queue := [], issued := Suc (issued q), processing := True,
                metrics := (metrics q)\<lparr> queueDepth := 0 \<rparr>,
                ran := ran q @ [issued q], loops := [Awaiting ?qop p] \<rparr>)"
    using q assms(2,3)
    by (simp add: enqueue_def processQueue_def next_turn_def updateQueueDepth_def Let_def)
  have d: "drain (enqueue opn (w, q))
     = (w2, q\<lparr> queue := [], issued := Suc (issued q), processing := False,
                metrics := record_metrics (\<not> isl r) (now w2 - now w) (now w2) ((metrics q)\<lparr> queueDepth := 0 \<rparr>),
                ran := ran q @ replicate (Suc (turns p w1)) (issued q), loops := [],
                promises := promises q @ [(issued q, r)] \<rparr>)"
    unfolding e using assms(4)
    apply (subst drain.simps)
    apply (simp add: resume_def)
    apply (subst drain.simps)
    apply (simp add: resume_def next_turn_def)
    apply (subst drain.simps)
    apply (simp add: replicate_append_same)
    done
  have "issued q \<notin> set (map fst (promises q))" using q(3) by simp
  then have look: "map_of (promises q @ [(issued q, r)]) (issued q) = Some r"
    by (simp add: map_add_def map_of_eq_None_iff[THEN iffD2] split: option.splits)
  show ?thesis
    using look q assms(2)
    by (cases r) (simp_all add: executeAtomic_def d Let_def)
qed



lemma executeAtomic_idle_run:
  fixes opn :: "('x world_scheme, 'a) async"
  assumes "queue_inv q" "loops q = []" "run_async opn w = (r, w2)"
  shows "executeAtomic cfg opn (w, q)
     = (Some r, recordOperation cfg (\<not> isl r) (now w2 - now w) w2,
        q\<lparr> issued := Suc (issued q),
           metrics := record_metrics (\<not> isl r) (now w2 - now w) (now w2) ((metrics q)\<lparr> queueDepth := 0 \<rparr>),
           promises := promises q @ [(issued q, r)],
           ran := ran q @ replicate (Suc (turns (snd (opn w)) (fst (opn w)))) (issued q) \<rparr>)"
proof -
  obtain w1 p where o: "opn w = (w1, p)" by (cases "opn w")
  with assms(3) have "finish p w1 = (r, w2)" by (simp add: run_async_def)
  with executeAtomic_idle[of q opn w w1 p r w2 cfg] assms(1,2) o show ?thesis by simp
qed

lemma total_record_metrics [simp]:
  "totalOperations (record_metrics b l t m) = Suc (totalOperations m)"
  by (simp add: record_metrics_def Let_def)

lemma total_recordOperation:
  "totalOperations (service_metrics (recordOperation cfg b l w))
     = totalOperations (service_metrics w) + (if enableMetrics cfg then 1 else 0)"
  by (simp add: recordOperation_def)

lemma total_getMetrics:
  "totalOperations (getMetrics (w, q)) = totalOperations (service_metrics w) + totalOperations (metrics q)"
  by (simp add: getMetrics_def getQueueMetrics_def Let_def)


lemma run_noop: "run_async noop w = (Inr (), w)"
  by (simp add: noop_def run_promised)

lemma new_queue_idle [simp]: "loops new_queue = []" "totalOperations (metrics new_queue) = 0"
  by (simp_all add: new_queue_def zero_metrics_def)

lemma world0_total [simp]: "totalOperations (service_metrics world0) = 0"
  by (simp add: world0_def zero_metrics_def)





lemma entries_enqueue:
  assumes "queue_inv q"
  shows "length (executing (snd (enqueue opn (w, q)))) + length (queue (snd (enqueue opn (w, q))))
       = Suc (length (executing q) + length (queue q))"
proof -
  let ?q = "snd (enqueue opn (w, q))"
  have inv: "queue_inv ?q" using assms by (rule queue_inv_enqueue)
  have l: "length (promises q) + length (executing q) + length (queue q) = issued q"
    if "queue_inv q" for q :: "('c, 'd) WriteQueueService"
  proof -
    from that have "length (map fst (promises q) @ executing q @ map op_id (queue q)) = length [0..<issued q]"
      by (simp only: queue_inv_def)
    then show ?thesis by (simp only: length_append length_map length_upt diff_zero add.assoc)
  qed
  have p: "promises ?q = promises q"
    by (auto simp: enqueue_def processQueue_def next_turn_def updateQueueDepth_def Let_def
        split: list.splits prod.splits)
  from l[OF assms] l[OF inv] p issued_enqueue[of opn w q] show ?thesis by simp
qed

lemma executeAtomic_reachable:
  fixes w :: "'x world_scheme" and evs :: "('x world_scheme, 'a) event list"
    and f :: "('x world_scheme, 'a) async"
  defines "s \<equiv> exec evs (w, new_queue)"
  defines "r \<equiv> fst (run_async f (snd (in_turn (enqueued evs) w)))"
  defines "w2 \<equiv> snd (run_async f (snd (in_turn (enqueued evs) w)))"
  shows "executeAtomic cfg f s
     = (Some r, recordOperation cfg (\<not> isl r) (now w2 - now (fst s)) w2,
        snd (drain (exec (evs @ [Enqueue f]) (w, new_queue))))"
    and "promises (snd (drain (exec (evs @ [Enqueue f]) (w, new_queue))))
     = zip [0..<Suc (length (enqueued evs))] (fst (in_turn (enqueued evs) w) @ [r])"
proof -
  obtain v q where vq: "s = (v, q)" by (cases s)
  let ?d = "drain (exec (evs @ [Enqueue f]) (w, new_queue))"
  have e: "enqueue f (v, q) = exec (evs @ [Enqueue f]) (w, new_queue)"
    using vq by (simp add: exec_append exec_Cons exec_Nil s_def)
  have n: "issued q = length (enqueued evs)"
    using issued_exec[of evs "(w, new_queue)"] vq by (simp add: s_def new_queue_def)
  have p: "promises (snd ?d) = zip [0..<Suc (length (enqueued evs))] (fst (in_turn (enqueued evs) w) @ [r])"
    and wd: "fst ?d = w2"
    using drained[of "evs @ [Enqueue f]" w]
    by (simp_all add: enqueued_append in_turn_snoc r_def w2_def)
  show "promises (snd ?d) = zip [0..<Suc (length (enqueued evs))] (fst (in_turn (enqueued evs) w) @ [r])"
    by (rule p)
  have look: "map_of (promises (snd ?d)) (issued q) = Some r"
    unfolding p n by (subst map_of_zip_upt) (simp add: length_in_turn nth_append)
  obtain w1 q1 where d: "?d = (w1, q1)" by (cases ?d)
  with wd look have l: "w1 = w2" "map_of (promises q1) (issued q) = Some r" by simp_all
  show "executeAtomic cfg f s
     = (Some r, recordOperation cfg (\<not> isl r) (now w2 - now (fst s)) w2, snd ?d)"
    unfolding vq executeAtomic_def
    using e d l by (cases r) (simp_all add: Let_def)
qed

text \<open>
  Claim C6. \<^verbatim>\<open>executeAtomicWithRetry(op, maxRetries)\<close> is \<^verbatim>\<open>executeAtomic\<close> applied
  to the function that runs \<^verbatim>\<open>executeWithRetry(op, maxRetries)\<close>. Called after any
  run of the queue (other callers have enqueued operations, some of them settled, one
  perhaps executing, others waiting) and awaited, it resolves or rejects with the
  outcome that the whole retry loop has when it runs, with nothing else taking a turn,
  from the world that the earlier operations leave when run one after the other; it
  leaves the world that the loop leaves, the operation recorded; and it has put one
  entry into the queue, the function that runs the loop, whose promise is the last to
  settle. When other callers call while the loop is under way or waits (the run
  \<open>evs'\<close>), the promise of the entry still settles with that same outcome,
  whatever their operations do to the world: none of it falls between two attempts
  of the loop. At most one operation is executing at any time, and the turns are taken
  in the order of enqueueing.
\<close>

theorem executeAtomicWithRetry_is_one_queue_entry:
  fixes w :: "'x world_scheme" and evs evs' :: "('x world_scheme, 'a) event list"
    and opn :: "('x world_scheme, 'a) async" and cfg :: ConcurrencyConfig and maxR :: int
  defines "loop \<equiv> executeWithRetry cfg opn maxR"
  defines "outcome' \<equiv> run_async (executeWithRetry cfg opn maxR) (snd (in_turn (enqueued evs) w))"
  shows
    "executeAtomicWithRetry cfg opn maxR (exec evs (w, new_queue))
       = executeAtomic cfg loop (exec evs (w, new_queue))
   \<and> executeAtomicWithRetry cfg opn maxR (exec evs (w, new_queue))
       = (Some (fst outcome'),
          recordOperation cfg (\<not> isl (fst outcome')) (now (snd outcome') - now (fst (exec evs (w, new_queue))))
            (snd outcome'),
          snd (drain (exec (evs @ [Enqueue loop]) (w, new_queue))))
   \<and> promises (snd (snd (executeAtomicWithRetry cfg opn maxR (exec evs (w, new_queue)))))
       = zip [0..<Suc (length (enqueued evs))] (fst (in_turn (enqueued evs) w) @ [fst outcome'])
   \<and> (map_of (promises (snd (exec (evs @ Enqueue loop # evs') (w, new_queue)))) (length (enqueued evs)) = None
        \<or> map_of (promises (snd (exec (evs @ Enqueue loop # evs') (w, new_queue)))) (length (enqueued evs))
            = Some (fst outcome'))
   \<and> map_of (promises (snd (drain (exec (evs @ Enqueue loop # evs') (w, new_queue))))) (length (enqueued evs))
       = Some (fst outcome')
   \<and> length (executing (snd (exec (evs @ Enqueue loop # evs') (w, new_queue)))) \<le> 1
   \<and> sorted (ran (snd (exec (evs @ Enqueue loop # evs') (w, new_queue))))"
proof -
  let ?s = "exec evs (w, new_queue)"
  let ?run = "evs @ Enqueue loop # evs'"
  have eta: "(\<lambda>w. executeWithRetry cfg opn maxR w) = loop" by (simp add: loop_def)
  have a: "executeAtomicWithRetry cfg opn maxR ?s = executeAtomic cfg loop ?s"
    by (simp add: executeAtomicWithRetry_def eta)
  have b: "executeAtomicWithRetry cfg opn maxR ?s
       = (Some (fst outcome'),
          recordOperation cfg (\<not> isl (fst outcome')) (now (snd outcome') - now (fst ?s)) (snd outcome'),
          snd (drain (exec (evs @ [Enqueue loop]) (w, new_queue))))"
    unfolding a using executeAtomic_reachable(1)[of cfg loop evs w] by (simp add: outcome'_def loop_def)
  have c: "promises (snd (snd (executeAtomicWithRetry cfg opn maxR ?s)))
       = zip [0..<Suc (length (enqueued evs))] (fst (in_turn (enqueued evs) w) @ [fst outcome'])"
    unfolding b using executeAtomic_reachable(2)[of evs loop w] by (simp add: outcome'_def loop_def)
  have nth: "fst (in_turn (enqueued ?run) w) ! length (enqueued evs) = fst outcome'"
    by (simp add: enqueued_append in_turn_nth outcome'_def loop_def)
  have len: "length (enqueued evs) < length (enqueued ?run)" by (simp add: enqueued_append)
  have d: "map_of (promises (snd (exec ?run (w, new_queue)))) (length (enqueued evs)) = None
        \<or> map_of (promises (snd (exec ?run (w, new_queue)))) (length (enqueued evs)) = Some (fst outcome')"
    by (subst (1 2) settled_so_far[of ?run w])
       (simp add: map_of_zip_upt nth length_in_turn len)
  have e: "map_of (promises (snd (drain (exec ?run (w, new_queue))))) (length (enqueued evs)) = Some (fst outcome')"
    unfolding drained(1)[of ?run w] using len nth by (simp add: map_of_zip_upt length_in_turn)
  have inv: "queue_inv (snd (exec ?run (w, new_queue)))"
    by (rule queue_inv_exec) (simp add: queue_inv_new)
  then have "length (loops (snd (exec ?run (w, new_queue)))) \<le> 1" by (simp add: queue_inv_def)
  with executing_le_loops[of "snd (exec ?run (w, new_queue))"]
  have f: "length (executing (snd (exec ?run (w, new_queue)))) \<le> 1" by simp
  from inv have g: "sorted (ran (snd (exec ?run (w, new_queue))))" by (simp add: queue_inv_def)
  show ?thesis
    apply (intro conjI)
          apply (rule a)
         apply (rule b)
        apply (rule c)
       apply (rule d)
      apply (rule e)
     apply (rule f)
    apply (rule g)
    done
qed

text \<open>The second caller of the run above, calling through
  \<^verbatim>\<open>executeAtomicWithRetry\<close> while the first caller's loop waits: its promise
  resolves with 7 after the first caller's has rejected.\<close>

theorem executeAtomicWithRetry_witness:
  "fst (executeAtomicWithRetry DEFAULT_CONCURRENCY_CONFIG flaky 3
          (exec [first_caller, Resume 0, Resume 0] (world0, new_queue))) = Some (Inr 7)
   \<and> timers (fst (snd (executeAtomicWithRetry DEFAULT_CONCURRENCY_CONFIG flaky 3
          (exec [first_caller, Resume 0, Resume 0] (world0, new_queue))))) = [10, 20]
   \<and> promises (snd (snd (executeAtomicWithRetry DEFAULT_CONCURRENCY_CONFIG flaky 3
          (exec [first_caller, Resume 0, Resume 0] (world0, new_queue)))))
     = [(0, Inl (JsError ''Error'' ''Operation failed after 3 attempts: Unknown error'')), (1, Inr 7)]"
proof -
  let ?run = "[first_caller, Resume 0, Resume 0]"
  let ?o = "run_async (executeWithRetry DEFAULT_CONCURRENCY_CONFIG flaky 3) (snd (in_turn (enqueued ?run) world0))"
  note t = executeAtomicWithRetry_is_one_queue_entry[of DEFAULT_CONCURRENCY_CONFIG flaky 3 ?run world0 "[]"]
  from t have b: "executeAtomicWithRetry DEFAULT_CONCURRENCY_CONFIG flaky 3 (exec ?run (world0, new_queue))
       = (Some (fst ?o),
          recordOperation DEFAULT_CONCURRENCY_CONFIG (\<not> isl (fst ?o))
            (now (snd ?o) - now (fst (exec ?run (world0, new_queue)))) (snd ?o),
          snd (drain (exec (?run @ [Enqueue (executeWithRetry DEFAULT_CONCURRENCY_CONFIG flaky 3)]) (world0, new_queue))))"
    by blast
  from t have c: "promises (snd (snd (executeAtomicWithRetry DEFAULT_CONCURRENCY_CONFIG flaky 3 (exec ?run (world0, new_queue)))))
       = zip [0..<Suc (length (enqueued ?run))] (fst (in_turn (enqueued ?run) world0) @ [fst ?o])"
    by blast
  have e: "fst ?o = Inr 7" "timers (snd ?o) = [10, 20]"
    "fst (in_turn (enqueued ?run) world0) = [Inl (JsError ''Error'' ''Operation failed after 3 attempts: Unknown error'')]"
    "length (enqueued ?run) = 1"
    by code_simp+
  have 1: "fst (executeAtomicWithRetry DEFAULT_CONCURRENCY_CONFIG flaky 3 (exec ?run (world0, new_queue))) = Some (Inr 7)"
    unfolding b by (simp add: e)
  have 2: "timers (fst (snd (executeAtomicWithRetry DEFAULT_CONCURRENCY_CONFIG flaky 3 (exec ?run (world0, new_queue))))) = [10, 20]"
    unfolding b by (simp add: e recordOperation_def)
  have 3: "promises (snd (snd (executeAtomicWithRetry DEFAULT_CONCURRENCY_CONFIG flaky 3 (exec ?run (world0, new_queue)))))
     = [(0, Inl (JsError ''Error'' ''Operation failed after 3 attempts: Unknown error'')), (1, Inr 7)]"
    unfolding c e by (simp add: upt_rec)
  from 1 2 3 show ?thesis by (intro conjI)
qed

text \<open>Two runs of the default service. In the first both callers call before the event
  loop takes a turn; in the second the second caller calls while the first caller's
  loop waits between its first and second attempt. In both, the nine turns of the first
  caller's three attempts come before the first turn of the second caller's operation,
  and the rejection of the first caller's promise does not keep the second operation
  from running and resolving.\<close>

lemma rejected_operation_does_not_halt_queue:
  "promises (snd (exec ([first_caller, second_caller] @ replicate 14 (Resume 0)) (world0, new_queue)))
     = [(0, Inl (JsError ''Error'' ''Operation failed after 3 attempts: Unknown error'')), (1, Inr 7)]
   \<and> ran (snd (exec ([first_caller, second_caller] @ replicate 14 (Resume 0)) (world0, new_queue)))
     = replicate 9 0 @ replicate 3 1
   \<and> \<not> processing (snd (exec ([first_caller, second_caller] @ replicate 14 (Resume 0)) (world0, new_queue)))
   \<and> getQueueDepth (snd (exec ([first_caller, second_caller] @ replicate 14 (Resume 0)) (world0, new_queue))) = 0"
  by code_simp

lemma late_caller_waits_for_retries:
  "executing (snd (exec [first_caller, Resume 0, Resume 0, Resume 0, second_caller] (world0, new_queue))) = [0]
   \<and> ran (snd (exec [first_caller, Resume 0, Resume 0, Resume 0, second_caller] (world0, new_queue))) = [0, 0, 0, 0]
   \<and> timers (fst (exec [first_caller, Resume 0, Resume 0, Resume 0, second_caller] (world0, new_queue))) = [10]
   \<and> map op_id (queue (snd (exec [first_caller, Resume 0, Resume 0, Resume 0, second_caller] (world0, new_queue)))) = [1]
   \<and> ran (snd (exec ([first_caller, Resume 0, Resume 0, Resume 0, second_caller] @ replicate 11 (Resume 0))
                 (world0, new_queue)))
     = replicate 9 0 @ replicate 3 1
   \<and> promises (snd (exec ([first_caller, Resume 0, Resume 0, Resume 0, second_caller] @ replicate 11 (Resume 0))
                 (world0, new_queue)))
     = [(0, Inl (JsError ''Error'' ''Operation failed after 3 attempts: Unknown error'')), (1, Inr 7)]
   \<and> timers (fst (exec ([first_caller, Resume 0, Resume 0, Resume 0, second_caller] @ replicate 11 (Resume 0))
                 (world0, new_queue))) = [10, 20]"
  by code_simp

lemma recordOperation_chrome [simp]:
  "stored (recordOperation cfg b l w) = stored w"
  "lastErrors (recordOperation cfg b l w) = lastErrors w"
  "now (recordOperation cfg b l w) = now w"
  by (simp_all add: recordOperation_def)

lemma idle_after_executeAtomic:
  assumes "idle_queue q"
  shows "idle_queue (q\<lparr> issued := Suc (issued q), metrics := mm,
           promises := promises q @ [(issued q, r)],
           ran := ran q @ replicate n (issued q) \<rparr>)"
proof -
  from assms have q: "queue q = []" "\<not> processing q" "loops q = []"
    "map fst (promises q) = [0..<issued q]" "sorted (ran q)" "\<forall>x \<in> set (ran q). x < length (promises q)"
    by (auto simp: idle_queue_def queue_inv_def executing_def)
  from q(4) have len: "length (promises q) = issued q"
    by (metis length_map length_upt diff_zero)
  show ?thesis
    using q len
    by (auto simp: idle_queue_def queue_inv_def executing_def sorted_append)
qed

lemma atomically_ok:
  fixes w :: "'x world_scheme"
  assumes "idle_queue q" "1 \<le> maxRetries cfg" "body w = (Inr (), w')"
  shows "\<exists>Q. atomically (Some cfg) body fallback (w, q)
           = (Some (Inr ()),
              recordOperation cfg True (now w' - now w) (recordOperation cfg True (now w' - now w) w'), Q)
         \<and> idle_queue Q"
proof -
  from assms(1) have inv: "queue_inv q" "loops q = []" by (simp_all add: idle_queue_def)
  have r: "run_async (executeWithRetry cfg (promised body) (maxRetries cfg)) w
      = (Inr (), recordOperation cfg True (now w' - now w) w')"
    using assms(2,3) by (simp add: run_executeWithRetry retry_ok run_promised)
  have n: "now (recordOperation cfg True (now w' - now w) w') = now w'"
    by (simp add: recordOperation_def)
  let ?opn = "\<lambda>w. executeWithRetry cfg (promised body) (maxRetries cfg) w"
  let ?Q = "q\<lparr> issued := Suc (issued q),
           metrics := record_metrics (\<not> isl (Inr () :: js_error + unit)) (now (recordOperation cfg True (now w' - now w) w') - now w)
                        (now (recordOperation cfg True (now w' - now w) w')) ((metrics q)\<lparr> queueDepth := 0 \<rparr>),
           promises := promises q @ [(issued q, Inr ())],
           ran := ran q @ replicate (Suc (turns (snd (?opn w)) (fst (?opn w)))) (issued q) \<rparr>"
  have "atomically (Some cfg) body fallback (w, q)
      = (Some (Inr ()), recordOperation cfg (\<not> isl (Inr () :: js_error + unit))
            (now (recordOperation cfg True (now w' - now w) w') - now w)
            (recordOperation cfg True (now w' - now w) w'), ?Q)"
    unfolding atomically_def executeAtomicWithRetry_def
    using executeAtomic_idle_run[OF inv, of ?opn w "Inr ()" "recordOperation cfg True (now w' - now w) w'" cfg] r
    by simp
  then have "atomically (Some cfg) body fallback (w, q)
      = (Some (Inr ()), recordOperation cfg True (now w' - now w) (recordOperation cfg True (now w' - now w) w'), ?Q)"
    by (simp only: n sum.disc simp_thms)
  moreover have "idle_queue ?Q" by (rule idle_after_executeAtomic[OF assms(1)])
  ultimately show ?thesis by blast
qed


section \<open>Properties of saving and deleting\<close>


lemma pick_createdAt_prev:
  "createdAt p = Some c \<Longrightarrow> c \<noteq> 0 \<Longrightarrow> pick_createdAt (Some p) input t = c"
  by (simp add: pick_createdAt_def truthy_num_def)

lemma pick_createdAt_nonzero: "t \<noteq> 0 \<Longrightarrow> pick_createdAt prev input t \<noteq> 0"
  by (auto simp: pick_createdAt_def truthy_num_def split: option.splits)

lemma holds_entry_object:
  "stored w = JObject m \<Longrightarrow> holds_entry w i c u = (\<exists>r. map_of m i = Some r \<and> createdAt r = c \<and> updatedAt r = u)"
  by (auto simp: holds_entry_def member_of_def split: option.splits)

lemma pick_createdAt_cases:
  "pick_createdAt prev input t =
     (if \<exists>p c. prev = Some p \<and> createdAt p = Some c \<and> c \<noteq> 0 then the (createdAt (the prev))
      else if \<exists>c. createdAt input = Some c \<and> c \<noteq> 0 then the (createdAt input)
      else t)"
  by (auto simp: pick_createdAt_def truthy_num_def split: option.splits)

lemma stamping_prompt: "stamping assemble_prompt"
  by (simp add: stamping_def assemble_prompt_def)

lemma stamping_context: "stamping assemble_context"
  by (simp add: stamping_def assemble_context_def)

lemma save_loop_entry:
  assumes "lastErrors w = []" "stored w = JObject m" "distinct (map fst m)" "stamping assemble"
    and "i \<noteq> ''__proto__'' \<or> map_of m i \<noteq> None"
  shows "\<exists>w' m'. save_loop label (readMap warn) assemble input i 1 None w = (Inr (), w')
           \<and> lastErrors w' = [] \<and> stored w' = JObject m' \<and> distinct (map fst m') \<and> now w' = now w
           \<and> holds_entry w' i (Some (pick_createdAt (map_of m i) input (now w))) (Some (now w))"
proof -
  let ?r = "assemble (map_of m i) input i (pick_createdAt (map_of m i) input (now w)) (now w)"
  let ?m = "spread m (AList.update i ?r m)"
  let ?w = "w\<lparr> stored := JObject ?m \<rparr>"
  have run: "save_loop label (readMap warn) assemble input i 1 None w = (Inr (), ?w)"
    by (rule save_loop_ok[OF assms(1,2,3,5)])
  have look: "map_of ?m i = Some ?r"
    using save_attempt_ok(2)[OF assms(1,2,3,5), where assemble = assemble and input = input] by simp
  have d: "distinct (map fst ?m)" using assms(3) by (rule distinct_spread)
  have st: "createdAt ?r = Some (pick_createdAt (map_of m i) input (now w))" "updatedAt ?r = Some (now w)"
    using assms(4) by (simp_all add: stamping_def)
  have h: "holds_entry ?w i (Some (pick_createdAt (map_of m i) input (now w))) (Some (now w))"
    using look st by (simp add: holds_entry_def member_of_Some)
  from run d h assms(1) show ?thesis by simp
qed

lemma save_atomic_entry:
  fixes w :: "('x entity_scheme) chrome"
  assumes "lastErrors w = []" "stored w = JObject m" "distinct (map fst m)" "stamping assemble"
    and "ident input \<noteq> []" "idle_queue q" "1 \<le> maxRetries cfg"
    and "ident input \<noteq> ''__proto__'' \<or> map_of m (ident input) \<noteq> None"
  shows "\<exists>w' m' q'. atomically (Some cfg) (save_operation (readMap warn) assemble input) fallback (w, q)
             = (Some (Inr ()), w', q')
           \<and> idle_queue q'
           \<and> lastErrors w' = [] \<and> stored w' = JObject m' \<and> distinct (map fst m') \<and> now w' = now w
           \<and> holds_entry w' (ident input) (Some (pick_createdAt (map_of m (ident input)) input (now w))) (Some (now w))"
proof -
  let ?i = "ident input"
  let ?r = "assemble (map_of m ?i) input ?i (pick_createdAt (map_of m ?i) input (now w)) (now w)"
  let ?m = "spread m (AList.update ?i ?r m)"
  let ?w = "w\<lparr> stored := JObject ?m \<rparr>"
  have body: "save_operation (readMap warn) assemble input w = (Inr (), ?w)"
    by (rule save_operation_ok[OF assms(1,2,3,5,8)])
  have look: "map_of ?m ?i = Some ?r"
    using save_attempt_ok(2)[OF assms(1,2,3,8), where assemble = assemble and input = input] by simp
  have d: "distinct (map fst ?m)" using assms(3) by (rule distinct_spread)
  have st: "createdAt ?r = Some (pick_createdAt (map_of m ?i) input (now w))" "updatedAt ?r = Some (now w)"
    using assms(4) by (simp_all add: stamping_def)
  from atomically_ok[where body = "save_operation (readMap warn) assemble input" and w = w and w' = ?w and fallback = fallback, OF assms(6,7) body]
  obtain Q where Q: "atomically (Some cfg) (save_operation (readMap warn) assemble input) fallback (w, q)
      = (Some (Inr ()), recordOperation cfg True (now ?w - now w) (recordOperation cfg True (now ?w - now w) ?w), Q)"
      "idle_queue Q" by blast
  let ?W = "recordOperation cfg True (now ?w - now w) (recordOperation cfg True (now ?w - now w) ?w)"
  have "holds_entry ?W ?i (Some (pick_createdAt (map_of m ?i) input (now w))) (Some (now w))"
    using look st by (simp add: holds_entry_def member_of_Some)
  moreover have "lastErrors ?W = []" "stored ?W = JObject ?m" "now ?W = now w"
    using assms(1) by simp_all
  ultimately show ?thesis using Q d by blast
qed

lemma save_na_entry:
  assumes "lastErrors w = []" "stored w = JObject m" "distinct (map fst m)" "stamping assemble"
    and "ident input \<noteq> []"
    and "ident input \<noteq> ''__proto__'' \<or> map_of m (ident input) \<noteq> None"
  shows "\<exists>w' m'. (case id_or_fresh input w of (i, w0) \<Rightarrow> save_loop label (readMap warn) assemble input i 1 None w0)
             = (Inr (), w')
           \<and> lastErrors w' = [] \<and> stored w' = JObject m' \<and> distinct (map fst m') \<and> now w' = now w
           \<and> holds_entry w' (ident input) (Some (pick_createdAt (map_of m (ident input)) input (now w))) (Some (now w))"
  using save_loop_entry[OF assms(1,2,3,4,6), of label warn input] assms(5)
  by (simp add: id_or_fresh_def)

text \<open>A save of a present id whose record has a non-zero \<^verbatim>\<open>createdAt\<close>, and a later
  one of the same id: the state in between is any that the first save can have left
  when time has passed.\<close>

lemma save_na_keeps:
  fixes label warn :: string
  assumes "lastErrors w = []" "stored w = JObject m" "distinct (map fst m)" "stamping assemble"
    and "ident input \<noteq> []" "map_of m (ident input) = Some p" "createdAt p = Some c" "c \<noteq> 0"
  defines "run \<equiv> (\<lambda>inp v. case id_or_fresh inp v of (i, w0) \<Rightarrow> save_loop label (readMap warn) assemble inp i 1 None w0)"
  shows "fst (run input w) = Inr () \<and> holds_entry (snd (run input w)) (ident input) (Some c) (Some (now w))"
    and "\<exists>m'. lastErrors (snd (run input w)) = [] \<and> stored (snd (run input w)) = JObject m'
            \<and> distinct (map fst m')"
proof -
  have pr: "ident input \<noteq> ''__proto__'' \<or> map_of m (ident input) \<noteq> None" using assms(6) by simp
  from save_na_entry[OF assms(1-5) pr, of label warn] pick_createdAt_prev[OF assms(7,8)] assms(6)
  show "fst (run input w) = Inr () \<and> holds_entry (snd (run input w)) (ident input) (Some c) (Some (now w))"
    and "\<exists>m'. lastErrors (snd (run input w)) = [] \<and> stored (snd (run input w)) = JObject m'
            \<and> distinct (map fst m')"
    unfolding run_def by auto
qed

lemma save_na_again:
  fixes label warn :: string
  assumes "lastErrors w = []" "stored w = JObject m" "distinct (map fst m)" "stamping assemble"
    and "ident a \<noteq> []" "map_of m (ident a) = Some p" "createdAt p = Some c" "c \<noteq> 0"
    and "ident b = ident a"
  defines "run \<equiv> (\<lambda>inp v. case id_or_fresh inp v of (i, w0) \<Rightarrow> save_loop label (readMap warn) assemble inp i 1 None w0)"
  shows "fst (run b ((snd (run a w))\<lparr> now := t \<rparr>)) = Inr ()
       \<and> holds_entry (snd (run b ((snd (run a w))\<lparr> now := t \<rparr>))) (ident a) (Some c) (Some t)"
proof -
  let ?w1 = "snd (run a w)"
  from save_na_keeps[OF assms(1-8), of label warn]
  obtain m1 where 1: "holds_entry ?w1 (ident a) (Some c) (Some (now w))" "lastErrors ?w1 = []"
      "stored ?w1 = JObject m1" "distinct (map fst m1)"
    unfolding run_def by blast
  from 1(1,3) obtain r where r: "map_of m1 (ident a) = Some r" "createdAt r = Some c"
    by (auto simp: holds_entry_def split: member.splits)
  let ?w2 = "?w1\<lparr> now := t \<rparr>"
  have w2: "lastErrors ?w2 = []" "stored ?w2 = JObject m1" using 1(2,3) by simp_all
  have b: "ident b \<noteq> []" "map_of m1 (ident b) = Some r" using assms(5,9) r(1) by simp_all
  from save_na_keeps(1)[OF w2 1(4) assms(4) b r(2) assms(8), of label warn]
  show ?thesis unfolding run_def using assms(9) by simp
qed

lemma save_na_twice:
  fixes label warn :: string
  assumes "lastErrors w = []" "stored w = JObject m" "distinct (map fst m)" "stamping assemble"
    and "ident a \<noteq> []" "ident b = ident a" "now w \<noteq> 0"
    and "ident a \<noteq> ''__proto__'' \<or> map_of m (ident a) \<noteq> None"
  defines "run \<equiv> (\<lambda>inp v. case id_or_fresh inp v of (i, w0) \<Rightarrow> save_loop label (readMap warn) assemble inp i 1 None w0)"
  shows "\<exists>c. c \<noteq> 0
           \<and> fst (run a w) = Inr ()
           \<and> holds_entry (snd (run a w)) (ident a) (Some c) (Some (now w))
           \<and> fst (run b ((snd (run a w))\<lparr> now := t \<rparr>)) = Inr ()
           \<and> holds_entry (snd (run b ((snd (run a w))\<lparr> now := t \<rparr>))) (ident a) (Some c) (Some t)"
proof -
  let ?c = "pick_createdAt (map_of m (ident a)) a (now w)"
  from save_na_entry[OF assms(1-5,8), of label warn]
  obtain w1 m1 where 1: "run a w = (Inr (), w1)" "lastErrors w1 = []" "stored w1 = JObject m1"
      "distinct (map fst m1)" "holds_entry w1 (ident a) (Some ?c) (Some (now w))"
    unfolding run_def by blast
  from 1(3,5) obtain r where r: "map_of m1 (ident a) = Some r" "createdAt r = Some ?c"
    by (auto simp: holds_entry_def split: member.splits)
  have nz: "?c \<noteq> 0" using assms(7) by (rule pick_createdAt_nonzero)
  let ?w1 = "w1\<lparr> now := t \<rparr>"
  have w1': "lastErrors ?w1 = []" "stored ?w1 = JObject m1" using 1(2,3) by simp_all
  have b: "ident b \<noteq> []" "map_of m1 (ident b) = Some r" using assms(5,6) r(1) by simp_all
  from save_na_keeps(1)[OF w1' 1(4) assms(4) b r(2) nz, of label warn]
  have 2: "fst (run b ?w1) = Inr ()" "holds_entry (snd (run b ?w1)) (ident a) (Some ?c) (Some t)"
    unfolding run_def using assms(6) by simp_all
  from nz 1(1,5) 2 show ?thesis by (intro exI[of _ ?c]) simp
qed

lemma save_at_keeps:
  fixes w :: "('x entity_scheme) chrome" and warn :: string
    and fallback :: "'x entity_scheme \<Rightarrow> ('x entity_scheme) chrome \<Rightarrow> (js_error + unit) \<times> ('x entity_scheme) chrome"
  assumes "lastErrors w = []" "stored w = JObject m" "distinct (map fst m)" "stamping assemble"
    and "ident input \<noteq> []" "idle_queue q" "1 \<le> maxRetries cfg"
    and "map_of m (ident input) = Some p" "createdAt p = Some c" "c \<noteq> 0"
  defines "run \<equiv> (\<lambda>inp. atomically (Some cfg) (save_operation (readMap warn) assemble inp) (fallback inp))"
  shows "fst (run input (w, q)) = Some (Inr ())
       \<and> holds_entry (fst (snd (run input (w, q)))) (ident input) (Some c) (Some (now w))"
    and "\<exists>m'. lastErrors (fst (snd (run input (w, q)))) = [] \<and> stored (fst (snd (run input (w, q)))) = JObject m'
            \<and> distinct (map fst m') \<and> idle_queue (snd (snd (run input (w, q))))"
proof -
  have pr: "ident input \<noteq> ''__proto__'' \<or> map_of m (ident input) \<noteq> None" using assms(8) by simp
  from save_atomic_entry[OF assms(1-7) pr, of warn "fallback input"] pick_createdAt_prev[OF assms(9,10)] assms(8)
  show "fst (run input (w, q)) = Some (Inr ())
       \<and> holds_entry (fst (snd (run input (w, q)))) (ident input) (Some c) (Some (now w))"
    and "\<exists>m'. lastErrors (fst (snd (run input (w, q)))) = [] \<and> stored (fst (snd (run input (w, q)))) = JObject m'
            \<and> distinct (map fst m') \<and> idle_queue (snd (snd (run input (w, q))))"
    unfolding run_def by auto
qed

lemma save_at_again:
  fixes w :: "('x entity_scheme) chrome" and warn :: string
    and fallback :: "'x entity_scheme \<Rightarrow> ('x entity_scheme) chrome \<Rightarrow> (js_error + unit) \<times> ('x entity_scheme) chrome"
  assumes "lastErrors w = []" "stored w = JObject m" "distinct (map fst m)" "stamping assemble"
    and "ident a \<noteq> []" "idle_queue q" "1 \<le> maxRetries cfg"
    and "map_of m (ident a) = Some p" "createdAt p = Some c" "c \<noteq> 0"
    and "ident b = ident a"
  defines "run \<equiv> (\<lambda>inp. atomically (Some cfg) (save_operation (readMap warn) assemble inp) (fallback inp))"
  shows "fst (run b ((fst (snd (run a (w, q))))\<lparr> now := t \<rparr>, snd (snd (run a (w, q))))) = Some (Inr ())
       \<and> holds_entry (fst (snd (run b ((fst (snd (run a (w, q))))\<lparr> now := t \<rparr>, snd (snd (run a (w, q)))))))
            (ident a) (Some c) (Some t)"
proof -
  let ?w1 = "fst (snd (run a (w, q)))" and ?q1 = "snd (snd (run a (w, q)))"
  from save_at_keeps[OF assms(1-10), of warn fallback]
  obtain m1 where 1: "holds_entry ?w1 (ident a) (Some c) (Some (now w))" "lastErrors ?w1 = []"
      "stored ?w1 = JObject m1" "distinct (map fst m1)" "idle_queue ?q1"
    unfolding run_def by blast
  from 1(1,3) obtain r where r: "map_of m1 (ident a) = Some r" "createdAt r = Some c"
    by (auto simp: holds_entry_def split: member.splits)
  let ?w2 = "?w1\<lparr> now := t \<rparr>"
  have w2: "lastErrors ?w2 = []" "stored ?w2 = JObject m1" using 1(2,3) by simp_all
  have b: "ident b \<noteq> []" "map_of m1 (ident b) = Some r" using assms(5,11) r(1) by simp_all
  from save_at_keeps(1)[OF w2 1(4) assms(4) b(1) 1(5) assms(7) b(2) r(2) assms(10), of warn fallback]
  show ?thesis unfolding run_def using assms(11) by simp
qed

lemma save_at_twice:
  fixes w :: "('x entity_scheme) chrome" and warn :: string
    and fallback :: "'x entity_scheme \<Rightarrow> ('x entity_scheme) chrome \<Rightarrow> (js_error + unit) \<times> ('x entity_scheme) chrome"
  assumes "lastErrors w = []" "stored w = JObject m" "distinct (map fst m)" "stamping assemble"
    and "ident a \<noteq> []" "ident b = ident a" "now w \<noteq> 0" "idle_queue q" "1 \<le> maxRetries cfg"
    and "ident a \<noteq> ''__proto__'' \<or> map_of m (ident a) \<noteq> None"
  defines "run \<equiv> (\<lambda>inp. atomically (Some cfg) (save_operation (readMap warn) assemble inp) (fallback inp))"
  shows "\<exists>c. c \<noteq> 0
           \<and> fst (run a (w, q)) = Some (Inr ())
           \<and> holds_entry (fst (snd (run a (w, q)))) (ident a) (Some c) (Some (now w))
           \<and> fst (run b ((fst (snd (run a (w, q))))\<lparr> now := t \<rparr>, snd (snd (run a (w, q))))) = Some (Inr ())
           \<and> holds_entry (fst (snd (run b ((fst (snd (run a (w, q))))\<lparr> now := t \<rparr>, snd (snd (run a (w, q)))))))
                (ident a) (Some c) (Some t)"
proof -
  let ?c = "pick_createdAt (map_of m (ident a)) a (now w)"
  from save_atomic_entry[OF assms(1-5,8,9,10), of warn "fallback a"]
  obtain w1 m1 q1 where 1: "run a (w, q) = (Some (Inr ()), w1, q1)" "idle_queue q1"
      "lastErrors w1 = []" "stored w1 = JObject m1"
      "distinct (map fst m1)" "holds_entry w1 (ident a) (Some ?c) (Some (now w))"
    unfolding run_def by blast
  from 1(4,6) obtain r where r: "map_of m1 (ident a) = Some r" "createdAt r = Some ?c"
    by (auto simp: holds_entry_def split: member.splits)
  have nz: "?c \<noteq> 0" using assms(7) by (rule pick_createdAt_nonzero)
  let ?w1 = "w1\<lparr> now := t \<rparr>"
  have w1': "lastErrors ?w1 = []" "stored ?w1 = JObject m1" using 1(3,4) by simp_all
  have b: "ident b \<noteq> []" "map_of m1 (ident b) = Some r" using assms(5,6) r(1) by simp_all
  from save_at_keeps(1)[OF w1' 1(5) assms(4) b(1) 1(2) assms(9) b(2) r(2) nz, of warn fallback]
  have 2: "fst (run b (?w1, q1)) = Some (Inr ())"
    "holds_entry (fst (snd (run b (?w1, q1)))) (ident a) (Some ?c) (Some t)"
    unfolding run_def using assms(6) by simp_all
  from nz 1(1,6) 2 show ?thesis by (intro exI[of _ ?c]) simp
qed

text \<open>The writers keep the map stamped while the clock does not read 0.\<close>

lemma stamped_map_of:
  "distinct (map fst m) \<Longrightarrow> stamped m \<longleftrightarrow> (\<forall>k r. map_of m k = Some r \<longrightarrow> truthy_num (createdAt r))"
  unfolding stamped_def by (auto dest: map_of_SomeD)

lemma stamped_update:
  assumes "distinct (map fst m)" "stamped m" "truthy_num (createdAt r)"
  shows "stamped (AList.update i r m)"
proof -
  have d: "distinct (map fst (AList.update i r m))" using assms(1) by (simp add: distinct_update)
  show ?thesis
    using assms unfolding stamped_map_of[OF d] stamped_map_of[OF assms(1)]
    by (auto simp: update_conv' split: if_splits)
qed

lemma makeId_now [simp]: "now (snd (makeId w)) = now w"
  by (simp add: makeId_def split: list.splits)

lemma migrate_stamped:
  "now w \<noteq> 0 \<Longrightarrow> distinct (map fst m) \<Longrightarrow> stamped m \<Longrightarrow>
   stamped (fst (migrate arr m w)) \<and> distinct (map fst (fst (migrate arr m w)))"
proof (induction arr arbitrary: m w)
  case Nil
  then show ?case by simp
next
  case (Cons item arr)
  obtain i w1 where iw: "(if ident item \<noteq> [] then (ident item, w) else makeId w) = (i, w1)"
    by (cases "if ident item \<noteq> [] then (ident item, w) else makeId w")
  then have n: "now w1 = now w"
    using makeId_now[of w] by (cases "ident item = []") auto
  let ?c = "if truthy_num (createdAt item) then the (createdAt item) else now w1"
  let ?u = "if truthy_num (updatedAt item) then the (updatedAt item) else ?c"
  let ?r = "item\<lparr> ident := i, createdAt := Some ?c, updatedAt := Some ?u \<rparr>"
  have "truthy_num (createdAt ?r)"
    using Cons.prems(1) n by (auto simp: truthy_num_def split: option.splits)
  with Cons.prems have s: "stamped (assign m i ?r)" "distinct (map fst (assign m i ?r))"
    by (simp_all add: assign_def stamped_update distinct_update)
  have "now w1 \<noteq> 0" using Cons.prems(1) n by simp
  from Cons.IH[OF this s(2,1)] iw show ?case by (simp add: Let_def)
qed

lemma save_keeps_stamped:
  assumes "lastErrors w = []" "stored w = JObject m" "distinct (map fst m)" "stamped m"
    and "stamping assemble" "now w \<noteq> 0" "i \<noteq> ''__proto__'' \<or> map_of m i \<noteq> None"
  shows "\<exists>m'. save_loop label (readMap warn) assemble input i 1 None w = (Inr (), w\<lparr> stored := JObject m' \<rparr>)
            \<and> stamped m'"
proof -
  let ?r = "assemble (map_of m i) input i (pick_createdAt (map_of m i) input (now w)) (now w)"
  let ?m = "spread m (AList.update i ?r m)"
  have d: "distinct (map fst ?m)" using assms(3) by (rule distinct_spread)
  have look: "map_of ?m = (map_of m)(i \<mapsto> ?r)"
    by (rule save_attempt_ok(2)[OF assms(1,2,3,7)])
  have r: "truthy_num (createdAt ?r)"
    using assms(5) pick_createdAt_nonzero[OF assms(6), of "map_of m i" input]
    by (simp add: stamping_def truthy_num_def)
  have "stamped ?m"
    using assms(4) r unfolding stamped_map_of[OF d] stamped_map_of[OF assms(3)] look
    by (auto split: if_splits)
  with save_loop_ok[OF assms(1,2,3,7), of label warn assemble input] show ?thesis by blast
qed


lemma idle_new_queue: "idle_queue new_queue"
  by (simp add: idle_queue_def queue_inv_new)

lemma chrome_with_simps [simp]:
  "stored (chrome_with v) = v" "lastErrors (chrome_with v) = []" "now (chrome_with v) = 1000"
  by (simp_all add: chrome_with_def)


text \<open>What a save writes in the other cases. A first save of an id stores the
  caller's \<^verbatim>\<open>createdAt\<close> if that is not 0, else the time of the save, and a second
  save keeps it (lemmas \<open>save_na_twice\<close> and \<open>save_at_twice\<close>). A record that has no
  \<^verbatim>\<open>createdAt\<close>, or 0, is treated as one that has none to carry forward. And a save
  under the id \<^verbatim>\<open>__proto__\<close> resolves and stores nothing.\<close>

lemma first_save_establishes_createdAt:
  fixes w :: "prompt_record chrome"
  assumes "lastErrors w = []" "stored w = JObject m" "distinct (map fst m)"
    and "ident prompt \<noteq> []" "ident prompt \<noteq> ''__proto__''" "map_of m (ident prompt) = None"
  shows "fst (savePrompt prompt w) = Inr ()
       \<and> holds_entry (snd (savePrompt prompt w)) (ident prompt)
            (Some (case createdAt prompt of Some c \<Rightarrow> if c \<noteq> 0 then c else now w | None \<Rightarrow> now w))
            (Some (now w))"
proof -
  have pr: "ident prompt \<noteq> ''__proto__'' \<or> map_of m (ident prompt) \<noteq> None" using assms(5) by simp
  have "pick_createdAt None prompt (now w)
      = (case createdAt prompt of Some c \<Rightarrow> if c \<noteq> 0 then c else now w | None \<Rightarrow> now w)"
    by (simp add: pick_createdAt_def truthy_num_def split: option.splits)
  moreover from save_na_entry[OF assms(1,2,3) stamping_prompt assms(4) pr, of "''savePrompt''"
      "''ChromeStorageService: unexpected prompts value, returning empty map.''"]
  obtain w' where "savePrompt prompt w = (Inr (), w')"
    "holds_entry w' (ident prompt) (Some (pick_createdAt (map_of m (ident prompt)) prompt (now w))) (Some (now w))"
    unfolding savePrompt_def readPromptsMap_def by blast
  ultimately show ?thesis using assms(6) by simp
qed

lemma save_over_unstamped_record:
  "holds_entry (chrome_with (JObject [(''p1'', record_p1 0)])) ''p1'' (Some 0) (Some 0)
   \<and> holds_entry (snd (savePrompt input_p1 (chrome_with (JObject [(''p1'', record_p1 0)]))))
        ''p1'' (Some 1000) (Some 1000)
   \<and> holds_entry (chrome_with (JObject [(''p1'', (record_p1 5)\<lparr> createdAt := None \<rparr>)])) ''p1'' None (Some 5)
   \<and> holds_entry (snd (savePrompt input_p1 (chrome_with (JObject [(''p1'', (record_p1 5)\<lparr> createdAt := None \<rparr>)]))))
        ''p1'' (Some 1000) (Some 1000)"
  by code_simp

lemma save_under_proto_stores_nothing:
  "savePrompt (input_p1\<lparr> ident := ''__proto__'' \<rparr>) (chrome_with (JObject []))
     = (Inr (), chrome_with (JObject []))
   \<and> \<not> has_entry (snd (savePrompt (input_p1\<lparr> ident := ''__proto__'' \<rparr>) (chrome_with (JObject [])))) ''__proto__''"
  by code_simp


section \<open>Claims about reading\<close>


lemma getList_again:
  assumes "stored w = JObject m" "lastErrors w = []"
  shows "getList lc (readMap warn) project (snd (getList lc (readMap warn) project w))
           = getList lc (readMap warn) project w"
  using assms by (simp add: getList_def readMap_object)

lemma ident_project [simp]:
  "ident (project_prompt r) = ident r" "ident (project_context q) = ident q"
  by (simp_all add: project_prompt_def project_context_def)

text \<open>
  Claim C4. For a map keyed by id, \<^verbatim>\<open>getPrompts()\<close> and \<^verbatim>\<open>getContexts()\<close> return
  the records of the map (each once, projected to the public fields) sorted ascending
  by \<^verbatim>\<open>createdAt\<close> (0 for a record that has none), ties broken by
  \<^verbatim>\<open>localeCompare\<close> on the ids; the time stamps of the returned list are the
  sorted time stamps of the map, so records created at 3, 1, 2 come back as 1, 2, 3;
  and the call leaves the store as it was, so a second call returns the same list.
  (The storage call does not fail; \<^verbatim>\<open>localeCompare\<close> is a consistent comparator.)
\<close>

theorem getPrompts_getContexts_sorted:
  fixes wp :: "prompt_record chrome" and wc :: "context_record chrome"
  assumes "consistent_compare lc"
    and "stored wp = JObject mp" "lastErrors wp = []" "keyed_by_id mp"
    and "stored wc = JObject mc" "lastErrors wc = []" "keyed_by_id mc"
  shows
   "(\<exists>xs. getPrompts lc wp = (Inr xs, wp)
        \<and> mset xs = mset (map project_prompt (map snd mp))
        \<and> sorted_wrt (\<lambda>a b. created_or_zero (JObject mp) a < created_or_zero (JObject mp) b
              \<or> (created_or_zero (JObject mp) a = created_or_zero (JObject mp) b
                  \<and> lc (ident a) (ident b) \<le> 0)) xs
        \<and> map (created_or_zero (JObject mp)) xs = sort (map stamp (map snd mp)))
  \<and> getPrompts lc (snd (getPrompts lc wp)) = getPrompts lc wp
  \<and> (\<exists>ys. getContexts lc wc = (Inr ys, wc)
        \<and> mset ys = mset (map project_context (map snd mc))
        \<and> sorted_wrt (\<lambda>a b. created_or_zero (JObject mc) a < created_or_zero (JObject mc) b
              \<or> (created_or_zero (JObject mc) a = created_or_zero (JObject mc) b
                  \<and> lc (ident a) (ident b) \<le> 0)) ys
        \<and> map (created_or_zero (JObject mc)) ys = sort (map stamp (map snd mc)))
  \<and> getContexts lc (snd (getContexts lc wc)) = getContexts lc wc"
proof (intro conjI)
  show "\<exists>xs. getPrompts lc wp = (Inr xs, wp)
        \<and> mset xs = mset (map project_prompt (map snd mp))
        \<and> sorted_wrt (\<lambda>a b. created_or_zero (JObject mp) a < created_or_zero (JObject mp) b
              \<or> (created_or_zero (JObject mp) a = created_or_zero (JObject mp) b
                  \<and> lc (ident a) (ident b) \<le> 0)) xs
        \<and> map (created_or_zero (JObject mp)) xs = sort (map stamp (map snd mp))"
    unfolding getPrompts_def readPromptsMap_def
    by (rule getList_sorted[OF assms(1,2,3,4)]) simp
  show "getPrompts lc (snd (getPrompts lc wp)) = getPrompts lc wp"
    unfolding getPrompts_def readPromptsMap_def by (rule getList_again[OF assms(2,3)])
  show "\<exists>ys. getContexts lc wc = (Inr ys, wc)
        \<and> mset ys = mset (map project_context (map snd mc))
        \<and> sorted_wrt (\<lambda>a b. created_or_zero (JObject mc) a < created_or_zero (JObject mc) b
              \<or> (created_or_zero (JObject mc) a = created_or_zero (JObject mc) b
                  \<and> lc (ident a) (ident b) \<le> 0)) ys
        \<and> map (created_or_zero (JObject mc)) ys = sort (map stamp (map snd mc))"
    unfolding getContexts_def readContextsMap_def
    by (rule getList_sorted[OF assms(1,5,6,7)]) simp
  show "getContexts lc (snd (getContexts lc wc)) = getContexts lc wc"
    unfolding getContexts_def readContextsMap_def by (rule getList_again[OF assms(5,6)])
qed

lemma consistent_code_unit_compare: "consistent_compare code_unit_compare"
  unfolding consistent_compare_def code_unit_compare_def
  by (auto split: if_splits) 



lemma keyed_312: "keyed_by_id prompts_312" "keyed_by_id contexts_312"
  by (simp_all add: keyed_by_id_def prompts_312_def contexts_312_def prompt_at_def context_at_def)

lemma stamps_312:
  "sort (map stamp (map snd prompts_312)) = [1, 2, 3]"
  "sort (map stamp (map snd contexts_312)) = [1, 2, 3]"
  by (simp_all add: stamp_def prompts_312_def contexts_312_def prompt_at_def context_at_def)

text \<open>Records created at 3, 1 and 2 come back with the time stamps 1, 2, 3.\<close>

theorem getPrompts_getContexts_sorted_witness:
  "(\<exists>xs. getPrompts code_unit_compare (chrome_with (JObject prompts_312))
            = (Inr xs, chrome_with (JObject prompts_312))
         \<and> map (created_or_zero (JObject prompts_312)) xs = [1, 2, 3])
   \<and> (\<exists>ys. getContexts code_unit_compare (chrome_with (JObject contexts_312))
            = (Inr ys, chrome_with (JObject contexts_312))
         \<and> map (created_or_zero (JObject contexts_312)) ys = [1, 2, 3])"
proof -
  have st: "stored (chrome_with (JObject prompts_312)) = JObject prompts_312"
    "lastErrors (chrome_with (JObject prompts_312)) = []"
    "stored (chrome_with (JObject contexts_312)) = JObject contexts_312"
    "lastErrors (chrome_with (JObject contexts_312)) = []"
    by simp_all
  note t = getPrompts_getContexts_sorted[OF consistent_code_unit_compare st(1,2) keyed_312(1)
      st(3,4) keyed_312(2)]
  from t obtain xs where xs:
    "getPrompts code_unit_compare (chrome_with (JObject prompts_312)) = (Inr xs, chrome_with (JObject prompts_312))"
    "map (created_or_zero (JObject prompts_312)) xs = sort (map stamp (map snd prompts_312))"
    by blast
  from t obtain ys where ys:
    "getContexts code_unit_compare (chrome_with (JObject contexts_312)) = (Inr ys, chrome_with (JObject contexts_312))"
    "map (created_or_zero (JObject contexts_312)) ys = sort (map stamp (map snd contexts_312))"
    by blast
  show ?thesis
    using xs ys unfolding stamps_312
    by (intro conjI exI[of _ xs] exI[of _ ys]) simp_all
qed

text \<open>The lists themselves, and a tie broken by the ids.\<close>

lemma getPrompts_312_order:
  "getPrompts code_unit_compare (chrome_with (JObject prompts_312))
     = (Inr [project_prompt (prompt_at ''b'' 1), project_prompt (prompt_at ''c'' 2),
             project_prompt (prompt_at ''a'' 3)], chrome_with (JObject prompts_312))"
  by (simp add: getPrompts_def getList_def readPromptsMap_def readMap_object[where m = prompts_312]
      Array_sort_def by_createdAt_def created_or_zero_def)
     (simp add: prompts_312_def prompt_at_def project_prompt_def by_createdAt_def created_or_zero_def
       member_of_def)

lemma getPrompts_tied_order:
  "getPrompts code_unit_compare (chrome_with (JObject prompts_tied))
     = (Inr [project_prompt (prompt_at ''a'' 7), project_prompt (prompt_at ''b'' 7)],
        chrome_with (JObject prompts_tied))"
  by (simp add: getPrompts_def getList_def readPromptsMap_def readMap_object[where m = prompts_tied]
      Array_sort_def by_createdAt_def created_or_zero_def)
     (simp add: prompts_tied_def prompt_at_def project_prompt_def by_createdAt_def created_or_zero_def
       member_of_def code_unit_compare_def less_char_def)


text \<open>
  Claim C2 on the code. A stored \<^verbatim>\<open>null\<close> passes the test
  \<^verbatim>\<open>typeof val === 'object' && !Array.isArray(val)\<close>: the read resolves with
  \<^verbatim>\<open>null\<close>, logs nothing and substitutes no empty map, and \<^verbatim>\<open>getPrompts\<close> and
  \<^verbatim>\<open>getContexts\<close> then reject with the \<^verbatim>\<open>TypeError\<close> of
  \<^verbatim>\<open>Object.values(null)\<close>. The other values that are neither object nor array are
  recovered as the claim says (here the number 7), and an absent value reads as the
  empty map.
\<close>

theorem readMap_null_is_returned:
  "readPromptsMap (chrome_with JNull) = (Inr JNull, chrome_with JNull)
   \<and> readContextsMap (chrome_with JNull) = (Inr JNull, chrome_with JNull)
   \<and> console (snd (readPromptsMap (chrome_with JNull))) = []
   \<and> fst (getPrompts code_unit_compare (chrome_with JNull))
       = Inl (JsError ''TypeError'' ''Cannot convert undefined or null to object'')
   \<and> fst (getContexts code_unit_compare (chrome_with JNull))
       = Inl (JsError ''TypeError'' ''Cannot convert undefined or null to object'')
   \<and> readPromptsMap (chrome_with (JNum 7))
       = (Inr (JObject []), console_out ''ChromeStorageService: unexpected prompts value, returning empty map.''
                              (chrome_with (JNum 7)))
   \<and> readPromptsMap (chrome_with JUndefined) = (Inr (JObject []), chrome_with JUndefined)"
  by (simp add: readPromptsMap_def readContextsMap_def readMap_null readMap_absent readMap_primitive
      getPrompts_def getContexts_def getList_def type_error_def)
     (simp add: chrome_with_def)

section \<open>Claims about deleting\<close>


lemma has_entry_object: "stored w = JObject m \<Longrightarrow> has_entry w i = (map_of m i \<noteq> None)"
  by (auto simp: has_entry_def member_of_def split: option.splits)

lemma delete_atomic_present:
  fixes w :: "('x entity_scheme) chrome"
  assumes "lastErrors w = []" "stored w = JObject m" "map_of m i = Some r"
    and "idle_queue q" "1 \<le> maxRetries cfg"
    and "map_of m ''hasOwnProperty'' = None" "i \<notin> set Object_prototype"
  shows "\<exists>w' q'. atomically (Some cfg) (delete_operation (readMap warn) i) fallback (w, q)
             = (Some (Inr ()), w', q')
           \<and> idle_queue q' \<and> lastErrors w' = [] \<and> stored w' = JObject (AList.delete i m)
           \<and> \<not> has_entry w' i"
proof -
  let ?w = "w\<lparr> stored := JObject (AList.delete i m) \<rparr>"
  have body: "delete_operation (readMap warn) i w = (Inr (), ?w)"
    by (rule delete_operation_present[OF assms(1,2,3,6,7)])
  from atomically_ok[where body = "delete_operation (readMap warn) i" and w = w and w' = ?w
      and fallback = fallback, OF assms(4,5) body]
  obtain Q where Q: "atomically (Some cfg) (delete_operation (readMap warn) i) fallback (w, q)
      = (Some (Inr ()), recordOperation cfg True (now ?w - now w) (recordOperation cfg True (now ?w - now w) ?w), Q)"
      "idle_queue Q" by blast
  let ?W = "recordOperation cfg True (now ?w - now w) (recordOperation cfg True (now ?w - now w) ?w)"
  have s: "stored ?W = JObject (AList.delete i m)" "lastErrors ?W = []" using assms(1) by simp_all
  have "\<not> has_entry ?W i"
    unfolding has_entry_object[OF s(1)] by (simp add: delete_conv')
  with Q s show ?thesis by blast
qed

lemma delete_atomic_absent:
  fixes w :: "('x entity_scheme) chrome"
  assumes "lastErrors w = []" "stored w = JObject m" "map_of m i = None"
    and "idle_queue q" "1 \<le> maxRetries cfg"
    and "map_of m ''hasOwnProperty'' = None"
  shows "\<exists>w' q'. atomically (Some cfg) (delete_operation (readMap warn) i) fallback (w, q)
             = (Some (Inr ()), w', q')
           \<and> idle_queue q' \<and> lastErrors w' = [] \<and> stored w' = stored w"
proof -
  have body: "delete_operation (readMap warn) i w = (Inr (), w)"
    by (rule delete_operation_absent[OF assms(1,2,3,6)])
  from atomically_ok[where body = "delete_operation (readMap warn) i" and w = w and w' = w
      and fallback = fallback, OF assms(4,5) body]
  obtain Q where Q: "atomically (Some cfg) (delete_operation (readMap warn) i) fallback (w, q)
      = (Some (Inr ()), recordOperation cfg True (now w - now w) (recordOperation cfg True (now w - now w) w), Q)"
      "idle_queue Q" by blast
  let ?W = "recordOperation cfg True (now w - now w) (recordOperation cfg True (now w - now w) w)"
  have "stored ?W = stored w" "lastErrors ?W = []" using assms(1) by simp_all
  with Q show ?thesis by blast
qed

text \<open>What holds of C1 and C8, for an id that is not the name of a member of
  \<^verbatim>\<open>Object.prototype\<close> and a map that has no entry named \<^verbatim>\<open>hasOwnProperty\<close>:
  the atomic deletes replace the map and remove the entry; a second delete, and any
  delete of an absent id, succeeds and changes nothing. (For an inherited name the
  verification \<^verbatim>\<open>after[id]\<close> finds the inherited member and fails.)\<close>

lemma atomic_delete_removes_entry:
  fixes wp :: "prompt_record chrome" and wc :: "context_record chrome"
  assumes "lastErrors wp = []" "stored wp = JObject mp" "map_of mp i = Some rp"
    and "lastErrors wc = []" "stored wc = JObject mc" "map_of mc j = Some rc"
    and "idle_queue qp" "idle_queue qc" "1 \<le> maxRetries cfg"
    and "map_of mp ''hasOwnProperty'' = None" "i \<notin> set Object_prototype"
    and "map_of mc ''hasOwnProperty'' = None" "j \<notin> set Object_prototype"
  shows "fst (deletePromptAtomic (Some cfg) i (wp, qp)) = Some (Inr ())
       \<and> stored (fst (snd (deletePromptAtomic (Some cfg) i (wp, qp)))) = JObject (AList.delete i mp)
       \<and> \<not> has_entry (fst (snd (deletePromptAtomic (Some cfg) i (wp, qp)))) i
       \<and> fst (deleteContextAtomic (Some cfg) j (wc, qc)) = Some (Inr ())
       \<and> stored (fst (snd (deleteContextAtomic (Some cfg) j (wc, qc)))) = JObject (AList.delete j mc)
       \<and> \<not> has_entry (fst (snd (deleteContextAtomic (Some cfg) j (wc, qc)))) j"
  using delete_atomic_present[OF assms(1,2,3,7,9,10,11), where fallback = "deletePrompt i"
      and warn = "''ChromeStorageService: unexpected prompts value, returning empty map.''"]
    delete_atomic_present[OF assms(4,5,6,8,9,12,13), where fallback = "deleteContext j"
      and warn = "''ChromeStorageService: unexpected contexts value, returning empty map.''"]
  by (auto simp: deletePromptAtomic_def deleteContextAtomic_def readPromptsMap_def readContextsMap_def)

lemma delete_absent_is_noop:
  fixes wp :: "prompt_record chrome" and wc :: "context_record chrome"
  assumes "lastErrors wp = []" "stored wp = JObject mp" "distinct (map fst mp)" "map_of mp i = None"
    and "lastErrors wc = []" "stored wc = JObject mc" "distinct (map fst mc)" "map_of mc j = None"
    and "idle_queue qp" "idle_queue qc" "1 \<le> maxRetries cfg"
    and "map_of mp ''hasOwnProperty'' = None" "i \<notin> set Object_prototype"
    and "map_of mc ''hasOwnProperty'' = None" "j \<notin> set Object_prototype"
  shows "deletePrompt i wp = (Inr (), wp)
       \<and> deleteContext j wc = (Inr (), wc)
       \<and> fst (deletePromptAtomic (Some cfg) i (wp, qp)) = Some (Inr ())
       \<and> stored (fst (snd (deletePromptAtomic (Some cfg) i (wp, qp)))) = stored wp
       \<and> fst (deleteContextAtomic (Some cfg) j (wc, qc)) = Some (Inr ())
       \<and> stored (fst (snd (deleteContextAtomic (Some cfg) j (wc, qc)))) = stored wc"
  using delete_atomic_absent[OF assms(1,2,4,9,11,12), where fallback = "deletePrompt i"
      and warn = "''ChromeStorageService: unexpected prompts value, returning empty map.''"]
    delete_atomic_absent[OF assms(5,6,8,10,11,14), where fallback = "deleteContext j"
      and warn = "''ChromeStorageService: unexpected contexts value, returning empty map.''"]
    delete_loop_absent[OF assms(1,2,3,4,12,13)] delete_loop_absent[OF assms(5,6,7,8,14,15)]
  by (auto simp: deletePromptAtomic_def deleteContextAtomic_def readPromptsMap_def readContextsMap_def
      deletePrompt_def deleteContext_def)



lemma one_prompt_simps:
  "lastErrors one_prompt = []" "stored one_prompt = JObject [(''p1'', record_p1 5)]"
  "lastErrors one_context = []" "stored one_context = JObject [(''c1'', record_c1 5)]"
  by (simp_all add: one_prompt_def one_context_def)

lemma plain_names:
  "''p1'' \<notin> set Object_prototype" "''p2'' \<notin> set Object_prototype" "''c1'' \<notin> set Object_prototype"
  "map_of [(''p1'', record_p1 5)] ''hasOwnProperty'' = None"
  "map_of [(''c1'', record_c1 5)] ''hasOwnProperty'' = None"
  "map_of (AList.delete ''p1'' [(''p1'', record_p1 5)]) ''hasOwnProperty'' = None"
  by (simp_all add: Object_prototype_def)

text \<open>Under the name of an inherited member the verification of a delete finds that
  member: the delete of an id that is not in the map rejects.\<close>

lemma delete_inherited_name_rejects:
  "fst (deletePrompt ''toString'' one_prompt)
     = Inl (JsError ''Error'' ''deletePrompt failed after retries: delete did not persist, retrying'')
   \<and> \<not> has_entry one_prompt ''toString''"
  by code_simp

text \<open>
  Claim C1 on the code. \<^verbatim>\<open>deletePrompt\<close> and \<^verbatim>\<open>deleteContext\<close> write the map
  with the merging \<^verbatim>\<open>writePromptsMap(map)\<close>: the stored entry comes back, the
  verification fails three times and the call rejects, the entry still in the map;
  so does \<^verbatim>\<open>deletePromptAtomic\<close> without a concurrency service, which falls back
  to it. With the service the delete replaces the map and the entry is gone.
\<close>

theorem delete_nonatomic_restores_entry:
  "deletePrompt ''p1'' one_prompt
     = (Inl (JsError ''Error'' ''deletePrompt failed after retries: delete did not persist, retrying''),
        delay 20 (delay 20 (delay 20 one_prompt)))
   \<and> has_entry (snd (deletePrompt ''p1'' one_prompt)) ''p1''
   \<and> deleteContext ''c1'' one_context
     = (Inl (JsError ''Error'' ''deleteContext failed after retries: delete did not persist, retrying''),
        delay 20 (delay 20 (delay 20 one_context)))
   \<and> has_entry (snd (deleteContext ''c1'' one_context)) ''c1''
   \<and> fst (deletePromptAtomic None ''p1'' (one_prompt, new_queue))
     = Some (Inl (JsError ''Error'' ''deletePrompt failed after retries: delete did not persist, retrying''))
   \<and> fst (deletePromptAtomic (Some DEFAULT_CONCURRENCY_CONFIG) ''p1'' (one_prompt, new_queue)) = Some (Inr ())
   \<and> \<not> has_entry (fst (snd (deletePromptAtomic (Some DEFAULT_CONCURRENCY_CONFIG) ''p1'' (one_prompt, new_queue)))) ''p1''"
proof -
  have p: "deletePrompt ''p1'' one_prompt
     = (Inl (JsError ''Error'' ''deletePrompt failed after retries: delete did not persist, retrying''),
        delay 20 (delay 20 (delay 20 one_prompt)))"
    unfolding deletePrompt_def readPromptsMap_def
    using delete_loop_present[OF one_prompt_simps(1,2), of "''p1''" "record_p1 5" "''deletePrompt''"]
    by (simp add: plain_names)
  have c: "deleteContext ''c1'' one_context
     = (Inl (JsError ''Error'' ''deleteContext failed after retries: delete did not persist, retrying''),
        delay 20 (delay 20 (delay 20 one_context)))"
    unfolding deleteContext_def readContextsMap_def
    using delete_loop_present[OF one_prompt_simps(3,4), of "''c1''" "record_c1 5" "''deleteContext''"]
    by (simp add: plain_names)
  have hp: "has_entry (snd (deletePrompt ''p1'' one_prompt)) ''p1''"
    unfolding p by (simp add: has_entry_def one_prompt_simps member_of_def)
  have hc: "has_entry (snd (deleteContext ''c1'' one_context)) ''c1''"
    unfolding c by (simp add: has_entry_def one_prompt_simps member_of_def)
  have f: "fst (deletePromptAtomic None ''p1'' (one_prompt, new_queue))
     = Some (Inl (JsError ''Error'' ''deletePrompt failed after retries: delete did not persist, retrying''))"
    by (simp add: deletePromptAtomic_def atomically_def p)
  have m: "1 \<le> maxRetries DEFAULT_CONCURRENCY_CONFIG" by (simp add: DEFAULT_CONCURRENCY_CONFIG_def)
  have l: "map_of [(''p1'', record_p1 5)] ''p1'' = Some (record_p1 5)" by simp
  from delete_atomic_present[OF one_prompt_simps(1,2) l idle_new_queue m plain_names(4,1),
      where fallback = "deletePrompt ''p1''"
      and warn = "''ChromeStorageService: unexpected prompts value, returning empty map.''"]
  have a: "fst (deletePromptAtomic (Some DEFAULT_CONCURRENCY_CONFIG) ''p1'' (one_prompt, new_queue)) = Some (Inr ())"
    "\<not> has_entry (fst (snd (deletePromptAtomic (Some DEFAULT_CONCURRENCY_CONFIG) ''p1'' (one_prompt, new_queue)))) ''p1''"
    by (auto simp: deletePromptAtomic_def readPromptsMap_def)
  from p hp c hc f a show ?thesis by (intro conjI)
qed

text \<open>
  Claim C8 on the code. Deleting a present id twice through \<^verbatim>\<open>deletePrompt\<close> (or
  \<^verbatim>\<open>deleteContext\<close>) rejects at the first call already, and at the second. Deleting
  an absent id succeeds and changes nothing, and through \<^verbatim>\<open>deletePromptAtomic\<close>
  both deletes succeed, the second changing nothing.
\<close>

theorem delete_twice_nonatomic_rejects:
  "fst (deletePrompt ''p1'' one_prompt)
     = Inl (JsError ''Error'' ''deletePrompt failed after retries: delete did not persist, retrying'')
   \<and> fst (deletePrompt ''p1'' (snd (deletePrompt ''p1'' one_prompt)))
     = Inl (JsError ''Error'' ''deletePrompt failed after retries: delete did not persist, retrying'')
   \<and> fst (deleteContext ''c1'' one_context)
     = Inl (JsError ''Error'' ''deleteContext failed after retries: delete did not persist, retrying'')
   \<and> deletePrompt ''p2'' one_prompt = (Inr (), one_prompt)
   \<and> fst (deletePromptAtomic (Some DEFAULT_CONCURRENCY_CONFIG) ''p1'' (one_prompt, new_queue)) = Some (Inr ())
   \<and> fst (deletePromptAtomic (Some DEFAULT_CONCURRENCY_CONFIG) ''p1''
            (snd (deletePromptAtomic (Some DEFAULT_CONCURRENCY_CONFIG) ''p1'' (one_prompt, new_queue)))) = Some (Inr ())
   \<and> stored (fst (snd (deletePromptAtomic (Some DEFAULT_CONCURRENCY_CONFIG) ''p1''
            (snd (deletePromptAtomic (Some DEFAULT_CONCURRENCY_CONFIG) ''p1'' (one_prompt, new_queue))))))
     = stored (fst (snd (deletePromptAtomic (Some DEFAULT_CONCURRENCY_CONFIG) ''p1'' (one_prompt, new_queue))))"
proof -
  let ?E = "JsError ''Error'' ''deletePrompt failed after retries: delete did not persist, retrying''"
  have p: "deletePrompt ''p1'' v = (Inl ?E, delay 20 (delay 20 (delay 20 v)))"
    if "lastErrors v = []" "stored v = JObject [(''p1'', record_p1 5)]" for v
    unfolding deletePrompt_def readPromptsMap_def
    using delete_loop_present[OF that, of "''p1''" "record_p1 5" "''deletePrompt''"]
    by (simp add: plain_names)
  have 1: "fst (deletePrompt ''p1'' one_prompt) = Inl ?E"
    by (simp add: p one_prompt_simps)
  have 2: "fst (deletePrompt ''p1'' (snd (deletePrompt ''p1'' one_prompt))) = Inl ?E"
    by (simp add: p one_prompt_simps)
  have 3: "fst (deleteContext ''c1'' one_context)
     = Inl (JsError ''Error'' ''deleteContext failed after retries: delete did not persist, retrying'')"
    unfolding deleteContext_def readContextsMap_def
    using delete_loop_present[OF one_prompt_simps(3,4), of "''c1''" "record_c1 5" "''deleteContext''"]
    by (simp add: plain_names)
  have 4: "deletePrompt ''p2'' one_prompt = (Inr (), one_prompt)"
    unfolding deletePrompt_def readPromptsMap_def
    using delete_loop_absent[OF one_prompt_simps(1,2), of "''p2''" "''deletePrompt''"]
    by (simp add: plain_names)
  have m: "1 \<le> maxRetries DEFAULT_CONCURRENCY_CONFIG" by (simp add: DEFAULT_CONCURRENCY_CONFIG_def)
  have l: "map_of [(''p1'', record_p1 5)] ''p1'' = Some (record_p1 5)" by simp
  let ?warn = "''ChromeStorageService: unexpected prompts value, returning empty map.''"
  let ?del = "\<lambda>s. atomically (Some DEFAULT_CONCURRENCY_CONFIG) (delete_operation (readMap ?warn) ''p1'') (deletePrompt ''p1'') s"
  from delete_atomic_present[OF one_prompt_simps(1,2) l idle_new_queue m plain_names(4,1),
      where fallback = "deletePrompt ''p1''" and warn = ?warn]
  obtain w1 q1 where a: "?del (one_prompt, new_queue) = (Some (Inr ()), w1, q1)"
    "idle_queue q1" "lastErrors w1 = []" "stored w1 = JObject (AList.delete ''p1'' [(''p1'', record_p1 5)])"
    by blast
  have gone: "map_of (AList.delete ''p1'' [(''p1'', record_p1 5)]) ''p1'' = None" by (simp add: delete_conv')
  from delete_atomic_absent[OF a(3,4) gone a(2) m plain_names(6),
      where fallback = "deletePrompt ''p1''" and warn = ?warn]
  obtain w2 q2 where b: "?del (w1, q1) = (Some (Inr ()), w2, q2)" "stored w2 = stored w1"
    by blast
  have d: "deletePromptAtomic (Some DEFAULT_CONCURRENCY_CONFIG) ''p1'' = ?del"
    by (simp add: deletePromptAtomic_def readPromptsMap_def fun_eq_iff)
  from 1 2 3 4 a(1) b show ?thesis unfolding d by simp
qed


end
